theory Spec2Isabelle
  imports Main "HOL-Library.AList"
begin

section \<open>Data model (types.ts)\<close>

text \<open>
  Axis identifiers are the strings \<^verbatim>\<open>id0\<close>, \<^verbatim>\<open>id1\<close>, ... minted by
  \<^verbatim>\<open>AxisIndex.generateId\<close> from a counter; the model keeps the counter value.
  An address is the pair (row id, col id). \<^verbatim>\<open>addressKey\<close> joins the two ids with a
  colon and \<^verbatim>\<open>parseAddressKey\<close> splits at it; as no id holds a colon the two are
  inverse, and the model uses the address itself as the key of every JavaScript Map and Set.
  Positions and offsets are JavaScript numbers that hold integers; the model has the
  integers, with their exact arithmetic, which is the arithmetic of the doubles as long as
  every position and offset stays below \<open>2\<^sup>5\<^sup>3\<close> in magnitude.
  The numbers held by the cells are arbitrary values of the type \<^verbatim>\<open>number\<close>
  (fractions, \<^verbatim>\<open>NaN\<close> and the infinities too): they are the type parameter
  \<open>'n\<close> of scalars, cells and sheets, the literal \<^verbatim>\<open>0\<close> and the operator
  \<^verbatim>\<open>+\<close> of the source are \<open>0\<close> and \<open>+\<close> of that type, and no law
  of arithmetic is assumed of them. The examples take the integers for \<open>'n\<close>.
\<close>

type_synonym axisId = nat
type_synonym address = "axisId \<times> axisId"
type_synonym position = "int \<times> int"

datatype 'n scalar = Num 'n | RefErr | CycleErr

datatype rowColMode = Rel | Abs

record anchor =
  base :: address
  rowMode :: rowColMode
  colMode :: rowColMode
  dRow :: int
  dCol :: int

record rangeRef =
  rstart :: anchor
  rend :: anchor

datatype formula = Ref anchor | Sum rangeRef

datatype 'n cell = Value "'n scalar" | Formula formula "'n scalar option"

datatype axisKind = Row | Col

record splice =
  axis :: axisKind
  atPos :: int
  del :: int
  ins :: int

section \<open>AxisIndex (axis-index.ts)\<close>

record segment =
  startPos :: int
  ids :: "axisId list"

record axisIndex =
  segments :: "segment list"
  nextId :: nat

text \<open>The constructor mints \<open>initialCount\<close> identifiers into one segment at position 1.\<close>

definition newAxisIndex :: "nat \<Rightarrow> axisIndex" where
  "newAxisIndex initialCount =
     \<lparr>segments = [\<lparr>startPos = 1, ids = [0..<initialCount]\<rparr>], nextId = initialCount\<rparr>"

fun posToIdSegs :: "segment list \<Rightarrow> int \<Rightarrow> axisId option" where
  "posToIdSegs [] pos = None"
| "posToIdSegs (seg # rest) pos =
     (let endPos = startPos seg + int (length (ids seg)) - 1
      in if pos \<ge> startPos seg \<and> pos \<le> endPos
         then Some (ids seg ! nat (pos - startPos seg))
         else posToIdSegs rest pos)"

definition posToId :: "axisIndex \<Rightarrow> int \<Rightarrow> axisId option" where
  "posToId ax pos = posToIdSegs (segments ax) pos"

text \<open>\<^verbatim>\<open>Array.indexOf\<close>: the first index holding the identifier.\<close>

fun indexOf :: "axisId list \<Rightarrow> axisId \<Rightarrow> nat option" where
  "indexOf [] x = None"
| "indexOf (y # ys) x = (if y = x then Some 0 else map_option Suc (indexOf ys x))"

fun idToPosSegs :: "segment list \<Rightarrow> axisId \<Rightarrow> int option" where
  "idToPosSegs [] i = None"
| "idToPosSegs (seg # rest) i =
     (case indexOf (ids seg) i of
        Some idx \<Rightarrow> Some (startPos seg + int idx)
      | None \<Rightarrow> idToPosSegs rest i)"

definition idToPos :: "axisIndex \<Rightarrow> axisId \<Rightarrow> int option" where
  "idToPos ax i = idToPosSegs (segments ax) i"

definition shiftSeg :: "int \<Rightarrow> segment \<Rightarrow> segment" where
  "shiftSeg d seg = seg\<lparr>startPos := startPos seg + d\<rparr>"

text \<open>
  The loop of \<^verbatim>\<open>insert\<close>: the first segment with
  \<open>startPos \<le> atPos \<le> segEnd + 1\<close> takes the new identifiers at offset
  \<open>atPos - startPos\<close> and every later segment moves by \<open>count\<close>. \<open>None\<close> is the
  flag \<^verbatim>\<open>inserted\<close> left false.
\<close>

fun insertSegs :: "int \<Rightarrow> int \<Rightarrow> axisId list \<Rightarrow> segment list \<Rightarrow> segment list option" where
  "insertSegs atp count newIds [] = None"
| "insertSegs atp count newIds (seg # rest) =
     (let segEnd = startPos seg + int (length (ids seg)) - 1
      in if atp \<ge> startPos seg \<and> atp \<le> segEnd + 1
         then (let offset = nat (atp - startPos seg)
               in Some (seg\<lparr>ids := take offset (ids seg) @ newIds @ drop offset (ids seg)\<rparr>
                        # map (shiftSeg count) rest))
         else map_option ((#) seg) (insertSegs atp count newIds rest))"

text \<open>\<^verbatim>\<open>insert(atPos, count)\<close> returns the minted identifiers and the new index.\<close>

definition insert_ax :: "axisIndex \<Rightarrow> int \<Rightarrow> int \<Rightarrow> axisId list \<times> axisIndex" where
  "insert_ax ax atp count =
     (let newIds = [nextId ax ..< nextId ax + nat count];
          segs = (case insertSegs atp count newIds (segments ax) of
                    Some segs' \<Rightarrow> segs'
                  | None \<Rightarrow>
                      (let nextPos = (if segments ax = [] then 1
                                      else startPos (last (segments ax))
                                           + int (length (ids (last (segments ax)))))
                       in segments ax @ [\<lparr>startPos = nextPos, ids = newIds\<rparr>]))
      in (newIds, \<lparr>segments = segs, nextId = nextId ax + nat count\<rparr>))"

text \<open>
  The loop of \<^verbatim>\<open>remove\<close> over the segment array: \<open>done\<close> holds the segments
  already passed (in their final form), the last argument the segments from index \<open>i\<close> on.
  A segment lying after the deleted range has its start moved by \<open>count\<close>; a segment that
  overlaps the range loses the identifiers in it, moves every later segment by \<open>count\<close>,
  and is dropped from the array when it became empty. \<^verbatim>\<open>Array.splice\<close> treats a
  negative delete count as zero, as \<open>nat\<close> does.
\<close>

fun removeSegs :: "int \<Rightarrow> int \<Rightarrow> segment list \<Rightarrow> segment list \<Rightarrow> segment list" where
  "removeSegs from to done [] = done"
| "removeSegs from to done (seg # rest) =
     (let count = to - from + 1;
          segEnd = startPos seg + int (length (ids seg)) - 1
      in if to < startPos seg then removeSegs from to (done @ [shiftSeg (- count) seg]) rest
         else if from > segEnd then removeSegs from to (done @ [seg]) rest
         else (let delStart = max from (startPos seg);
                   delEnd = min to segEnd;
                   delOffset = nat (delStart - startPos seg);
                   delCount = nat (delEnd - delStart + 1);
                   ids' = take delOffset (ids seg) @ drop (delOffset + delCount) (ids seg);
                   rest' = map (shiftSeg (- count)) rest
               in if ids' = [] then removeSegs from to done rest'
                  else removeSegs from to (done @ [seg\<lparr>ids := ids'\<rparr>]) rest'))"

definition remove_ax :: "axisIndex \<Rightarrow> int \<Rightarrow> int \<Rightarrow> axisIndex" where
  "remove_ax ax from to = ax\<lparr>segments := removeSegs from to [] (segments ax)\<rparr>"

definition maxPos :: "axisIndex \<Rightarrow> int" where
  "maxPos ax =
     (if segments ax = [] then 0
      else startPos (last (segments ax)) + int (length (ids (last (segments ax)))) - 1)"

section \<open>JavaScript containers\<close>

text \<open>
  A JavaScript \<^verbatim>\<open>Set\<close> iterates in insertion order: it is a list without
  duplicates, \<^verbatim>\<open>add\<close> appends an absent element and \<^verbatim>\<open>delete\<close> is
  \<^const>\<open>removeAll\<close>. A \<^verbatim>\<open>Map\<close> is an association list in insertion order:
  \<^verbatim>\<open>get\<close> is \<^const>\<open>map_of\<close>, \<^verbatim>\<open>set\<close> is \<^const>\<open>AList.update\<close>
  (in place for a present key, appended for a new one) and \<^verbatim>\<open>delete\<close> is
  \<^const>\<open>AList.delete\<close>.
\<close>

definition setAdd :: "'a \<Rightarrow> 'a list \<Rightarrow> 'a list" where
  "setAdd x xs = (if x \<in> set xs then xs else xs @ [x])"

text \<open>\<^verbatim>\<open>m.get(k) || new Set()\<close>\<close>

definition getSet :: "('k \<times> 'v list) list \<Rightarrow> 'k \<Rightarrow> 'v list" where
  "getSet m k = (case map_of m k of None \<Rightarrow> [] | Some s \<Rightarrow> s)"

text \<open>\<^verbatim>\<open>if (!m.has(k)) m.set(k, new Set()); m.get(k).add(v)\<close>\<close>

definition addToSet :: "'k \<Rightarrow> 'v \<Rightarrow> ('k \<times> 'v list) list \<Rightarrow> ('k \<times> 'v list) list" where
  "addToSet k v m = AList.update k (setAdd v (getSet m k)) m"

text \<open>
  \<^verbatim>\<open>s = m.get(k); if (s) { s.delete(v); if (s.size === 0) m.delete(k) }\<close>
\<close>

definition dropFromSet :: "'k \<Rightarrow> 'v \<Rightarrow> ('k \<times> 'v list) list \<Rightarrow> ('k \<times> 'v list) list" where
  "dropFromSet k v m =
     (case map_of m k of
        None \<Rightarrow> m
      | Some s \<Rightarrow> (let s' = removeAll v s
                  in if s' = [] then AList.delete k m else AList.update k s' m))"

section \<open>DepGraph (dep-graph.ts)\<close>

text \<open>An edge \<open>from \<rightarrow> to\<close> says that \<open>to\<close> reads \<open>from\<close>; both directions are stored.\<close>

record depGraph =
  outgoing :: "(address \<times> address list) list"
  incoming :: "(address \<times> address list) list"

definition emptyDepGraph :: depGraph where
  "emptyDepGraph = \<lparr>outgoing = [], incoming = []\<rparr>"

definition addEdge :: "depGraph \<Rightarrow> address \<Rightarrow> address \<Rightarrow> depGraph" where
  "addEdge g fromA toA =
     \<lparr>outgoing = addToSet fromA toA (outgoing g), incoming = addToSet toA fromA (incoming g)\<rparr>"

definition replaceAllInbound :: "depGraph \<Rightarrow> address \<Rightarrow> address list \<Rightarrow> depGraph" where
  "replaceAllInbound g ofKey newFrom =
     (let out' = (case map_of (incoming g) ofKey of
                    None \<Rightarrow> outgoing g
                  | Some oldIncoming \<Rightarrow>
                      fold (\<lambda>fromKey out. dropFromSet fromKey ofKey out) oldIncoming (outgoing g));
          g' = \<lparr>outgoing = out', incoming = AList.update ofKey [] (incoming g)\<rparr>
      in fold (\<lambda>fromA gr. addEdge gr fromA ofKey) newFrom g')"

text \<open>\<^verbatim>\<open>removeAll(of)\<close> retracts the outgoing and the incoming edges of the node.\<close>

definition removeAllEdges :: "depGraph \<Rightarrow> address \<Rightarrow> depGraph" where
  "removeAllEdges g ofKey =
     (let g1 = (case map_of (outgoing g) ofKey of
                  None \<Rightarrow> g
                | Some outSet \<Rightarrow>
                    \<lparr>outgoing = AList.delete ofKey (outgoing g),
                     incoming = fold (\<lambda>toKey inc. dropFromSet toKey ofKey inc) outSet (incoming g)\<rparr>)
      in case map_of (incoming g1) ofKey of
           None \<Rightarrow> g1
         | Some inSet \<Rightarrow>
             \<lparr>outgoing = fold (\<lambda>fromKey out. dropFromSet fromKey ofKey out) inSet (outgoing g1),
              incoming = AList.delete ofKey (incoming g1)\<rparr>)"

text \<open>
  \<^verbatim>\<open>affectedFrom\<close>: breadth-first search along outgoing edges. The second argument is
  the queue, the third the set \<^verbatim>\<open>affected\<close> in insertion order.
\<close>

function affectedLoop :: "depGraph \<Rightarrow> address list \<Rightarrow> address list \<Rightarrow> address list" where
  "affectedLoop g [] affected = affected"
| "affectedLoop g (key # queue) affected =
     (if key \<in> set affected then affectedLoop g queue affected
      else affectedLoop g
             (queue @ filter (\<lambda>dep. dep \<notin> set (affected @ [key])) (getSet (outgoing g) key))
             (affected @ [key]))"
  by pat_completeness auto

definition affectedFrom :: "depGraph \<Rightarrow> address list \<Rightarrow> address list" where
  "affectedFrom g changed = affectedLoop g changed []"

text \<open>
  \<^verbatim>\<open>wouldCreateCycle(from, to)\<close>: breadth-first search from \<open>to\<close> along outgoing edges,
  true as soon as \<open>from\<close> is taken from the queue.
\<close>

function cycleLoop :: "depGraph \<Rightarrow> address \<Rightarrow> address list \<Rightarrow> address list \<Rightarrow> bool" where
  "cycleLoop g fromKey [] visited = False"
| "cycleLoop g fromKey (current # queue) visited =
     (if current = fromKey then True
      else if current \<in> set visited then cycleLoop g fromKey queue visited
      else cycleLoop g fromKey
             (queue @ filter (\<lambda>dep. dep \<notin> set (visited @ [current])) (getSet (outgoing g) current))
             (visited @ [current]))"
  by pat_completeness auto

definition wouldCreateCycle :: "depGraph \<Rightarrow> address \<Rightarrow> address \<Rightarrow> bool" where
  "wouldCreateCycle g fromA toA = cycleLoop g fromA [toA] []"

definition getDependencies :: "depGraph \<Rightarrow> address \<Rightarrow> address list" where
  "getDependencies g ofKey = getSet (incoming g) ofKey"

definition getDependents :: "depGraph \<Rightarrow> address \<Rightarrow> address list" where
  "getDependents g ofKey = getSet (outgoing g) ofKey"

text \<open>The measure of both searches: the nodes still to be added to the visited set.\<close>

definition bfsMeasure :: "depGraph \<Rightarrow> address list \<Rightarrow> address list \<Rightarrow> nat" where
  "bfsMeasure g q a = card ((set q \<union> \<Union>(set ` snd ` set (outgoing g))) - set a)"

section \<open>RangeWatchers (range-watchers.ts)\<close>

record rangeWatchers =
  watchers :: "(address \<times> address list) list"
  formulaRanges :: "(address \<times> rangeRef list) list"

definition emptyRangeWatchers :: rangeWatchers where
  "emptyRangeWatchers = \<lparr>watchers = [], formulaRanges = []\<rparr>"

definition addWatch :: "rangeWatchers \<Rightarrow> rangeRef \<Rightarrow> address \<Rightarrow> rangeWatchers" where
  "addWatch rw rng formulaAt =
     rw\<lparr>formulaRanges :=
          AList.update formulaAt (getSet (formulaRanges rw) formulaAt @ [rng]) (formulaRanges rw)\<rparr>"

definition removeWatches :: "rangeWatchers \<Rightarrow> address \<Rightarrow> rangeWatchers" where
  "removeWatches rw formulaAt =
     \<lparr>watchers = filter (\<lambda>(cellKey, formulas). formulas \<noteq> [])
                   (map (\<lambda>(cellKey, formulas). (cellKey, removeAll formulaAt formulas)) (watchers rw)),
      formulaRanges = AList.delete formulaAt (formulaRanges rw)\<rparr>"

definition registerCell :: "rangeWatchers \<Rightarrow> address \<Rightarrow> address \<Rightarrow> rangeWatchers" where
  "registerCell rw cellAddr formulaAt = rw\<lparr>watchers := addToSet cellAddr formulaAt (watchers rw)\<rparr>"

definition watchersOf :: "rangeWatchers \<Rightarrow> address \<Rightarrow> address list" where
  "watchersOf rw addr = getSet (watchers rw) addr"

section \<open>Parser and printer (parser.ts)\<close>

text \<open>
  Formula texts are strings of 8-bit characters. \<^verbatim>\<open>String.trim\<close> strips the white
  space of JavaScript that fits in a byte.
\<close>

definition isSpace :: "char \<Rightarrow> bool" where
  "isSpace c = ((of_char c :: nat) \<in> set [9, 10, 11, 12, 13, 32, 160])"

definition trim :: "string \<Rightarrow> string" where
  "trim s = rev (dropWhile isSpace (rev (dropWhile isSpace s)))"

definition isUpper :: "char \<Rightarrow> bool" where
  "isUpper c = (65 \<le> (of_char c :: nat) \<and> (of_char c :: nat) \<le> 90)"

definition isDigit :: "char \<Rightarrow> bool" where
  "isDigit c = (48 \<le> (of_char c :: nat) \<and> (of_char c :: nat) \<le> 57)"

definition toUpper :: "char \<Rightarrow> char" where
  "toUpper c = (if 97 \<le> (of_char c :: nat) \<and> (of_char c :: nat) \<le> 122
                then char_of ((of_char c :: nat) - 32) else c)"



definition letterToCol :: "string \<Rightarrow> int" where
  "letterToCol letter = foldl (\<lambda>col ch. col * 26 + (int (of_char ch) - 65 + 1)) 0 letter"

text \<open>
  A JavaScript number holds an integer exactly up to \<open>2\<^sup>5\<^sup>3\<close> in magnitude; a
  larger integer is rounded to 53 significant bits, a tie to the even mantissa.
  \<open>bitLength\<close> is the number of binary digits.
\<close>

function bitLength :: "int \<Rightarrow> nat" where
  "bitLength n = (if n \<le> 0 then 0 else Suc (bitLength (n div 2)))"
  by pat_completeness auto

definition toDouble :: "int \<Rightarrow> int" where
  "toDouble n =
     (let a = \<bar>n\<bar>; e = bitLength a - 53
      in if e = 0 then n
         else (let q = a div 2 ^ e; r = a mod 2 ^ e; half = 2 ^ (e - 1);
                   q' = (if r > half \<or> (r = half \<and> odd q) then q + 1 else q)
               in sgn n * (q' * 2 ^ e)))"

text \<open>
  \<^verbatim>\<open>parseInt(digits, 10)\<close> on a string of decimal digits: the number nearest to the
  numeral. (A numeral of \<open>2\<^sup>1\<^sup>0\<^sup>2\<^sup>4\<close> or more reads as
  \<^verbatim>\<open>Infinity\<close> in JavaScript, which is no position of any index; the integers
  have no such value and the model keeps the rounded integer.)
\<close>

definition parseInt :: "string \<Rightarrow> int" where
  "parseInt ds = toDouble (foldl (\<lambda>n ch. n * 10 + (int (of_char ch) - 48)) 0 ds)"

text \<open>
  The match of \<^verbatim>\<open>/^(\$?)([A-Z]+)(\$?)(\d+)$/\<close>: the groups are (column is absolute,
  column letters, row is absolute, row digits).
\<close>

definition matchReference :: "string \<Rightarrow> (bool \<times> string \<times> bool \<times> string) option" where
  "matchReference s =
     (let colAbs = (take 1 s = ''$'');
          s1 = (if colAbs then drop 1 s else s);
          colLetter = takeWhile isUpper s1;
          s2 = dropWhile isUpper s1;
          rowAbs = (take 1 s2 = ''$'');
          digits = (if rowAbs then drop 1 s2 else s2)
      in if colLetter \<noteq> [] \<and> digits \<noteq> [] \<and> list_all isDigit digits
         then Some (colAbs, colLetter, rowAbs, digits) else None)"

definition parseReference ::
  "string \<Rightarrow> position \<Rightarrow> axisIndex \<Rightarrow> axisIndex \<Rightarrow> anchor option" where
  "parseReference ref basePos rowAxis colAxis =
     (case matchReference ref of
        None \<Rightarrow> None
      | Some (colAbs, colLetter, rowAbs, digits) \<Rightarrow>
          (let rowNum = parseInt digits; colPos = letterToCol colLetter
           in case posToId rowAxis (fst basePos) of
                None \<Rightarrow> None
              | Some baseRowId \<Rightarrow>
                  (case posToId colAxis (snd basePos) of
                     None \<Rightarrow> None
                   | Some baseColId \<Rightarrow>
                       Some \<lparr>base = (baseRowId, baseColId),
                             rowMode = (if rowAbs then Abs else Rel),
                             colMode = (if colAbs then Abs else Rel),
                             dRow = rowNum - fst basePos,
                             dCol = colPos - snd basePos\<rparr>)))"

text \<open>
  The match of \<^verbatim>\<open>/^SUM\(([^:]+):([^)]+)\)$/i\<close>: the first group runs to the first
  colon, the second to the first closing parenthesis, which ends the text.
\<close>

definition matchSum :: "string \<Rightarrow> (string \<times> string) option" where
  "matchSum expr =
     (let body = drop 4 expr;
          g1 = takeWhile (\<lambda>c. c \<noteq> CHR '':'') body;
          after1 = dropWhile (\<lambda>c. c \<noteq> CHR '':'') body;
          g2 = takeWhile (\<lambda>c. c \<noteq> CHR '')'') (drop 1 after1);
          after2 = dropWhile (\<lambda>c. c \<noteq> CHR '')'') (drop 1 after1)
      in if map toUpper (take 4 expr) = ''SUM('' \<and> g1 \<noteq> [] \<and> take 1 after1 = '':''
            \<and> g2 \<noteq> [] \<and> after2 = '')''
         then Some (g1, g2) else None)"

text \<open>\<open>None\<close> is the result \<^verbatim>\<open>'#REF!'\<close> of \<^verbatim>\<open>parseFormula\<close>.\<close>

definition parseFormula ::
  "string \<Rightarrow> position \<Rightarrow> axisIndex \<Rightarrow> axisIndex \<Rightarrow> formula option" where
  "parseFormula src basePos rowAxis colAxis =
     (let src' = trim src
      in if take 1 src' = ''=''
         then (let expr = trim (drop 1 src')
               in case matchSum expr of
                    Some (g1, g2) \<Rightarrow>
                      (case parseReference (trim g1) basePos rowAxis colAxis of
                         None \<Rightarrow> None
                       | Some start \<Rightarrow>
                           (case parseReference (trim g2) basePos rowAxis colAxis of
                              None \<Rightarrow> None
                            | Some end' \<Rightarrow> Some (Sum \<lparr>rstart = start, rend = end'\<rparr>)))
                  | None \<Rightarrow>
                      (case parseReference expr basePos rowAxis colAxis of
                         Some anchor \<Rightarrow> Some (Ref anchor)
                       | None \<Rightarrow> None))
         else None)"

text \<open>
  \<^verbatim>\<open>anchorToAddress\<close>: the position of the base plus the offset, read back as
  identifiers; \<open>None\<close> is \<^verbatim>\<open>'#REF!'\<close>. Both branches of the mode test add the offset,
  as in the source.
\<close>

definition anchorToAddress :: "anchor \<Rightarrow> axisIndex \<Rightarrow> axisIndex \<Rightarrow> address option" where
  "anchorToAddress a rowAxis colAxis =
     (case idToPos rowAxis (fst (base a)) of
        None \<Rightarrow> None
      | Some baseRowPos \<Rightarrow>
          (case idToPos colAxis (snd (base a)) of
             None \<Rightarrow> None
           | Some baseColPos \<Rightarrow>
               (let targetRowPos = (if rowMode a = Abs then baseRowPos + dRow a
                                    else baseRowPos + dRow a);
                    targetColPos = (if colMode a = Abs then baseColPos + dCol a
                                    else baseColPos + dCol a)
                in case posToId rowAxis targetRowPos of
                     None \<Rightarrow> None
                   | Some targetRowId \<Rightarrow>
                       (case posToId colAxis targetColPos of
                          None \<Rightarrow> None
                        | Some targetColId \<Rightarrow> Some (targetRowId, targetColId)))))"









section \<open>Splice transformation (transform.ts)\<close>

text \<open>\<open>None\<close> is the dead position \<^verbatim>\<open>'#REF!'\<close>.\<close>

definition applySpliceToPos :: "splice \<Rightarrow> int \<Rightarrow> int option" where
  "applySpliceToPos sp pos =
     (if del sp > 0
      then (if pos \<ge> atPos sp \<and> pos < atPos sp + del sp then None
            else if pos \<ge> atPos sp + del sp then Some (pos - del sp + ins sp)
            else Some pos)
      else if ins sp > 0
      then (if pos \<ge> atPos sp then Some (pos + ins sp) else Some pos)
      else Some pos)"

definition transformAnchor :: "anchor \<Rightarrow> splice \<Rightarrow> axisIndex \<Rightarrow> axisIndex \<Rightarrow> anchor option" where
  "transformAnchor a sp rowAxis colAxis =
     (let isRowSplice = (axis sp = Row)
      in case (if isRowSplice then idToPos rowAxis (fst (base a))
               else idToPos colAxis (snd (base a))) of
           None \<Rightarrow> None
         | Some basePos \<Rightarrow>
             (let mode = (if isRowSplice then rowMode a else colMode a);
                  dOffset = (if isRowSplice then dRow a else dCol a);
                  targetPos = basePos + dOffset;
                  newBasePos = applySpliceToPos sp basePos;
                  newTargetPos = (if mode = Rel then applySpliceToPos sp targetPos
                                  else Some targetPos)
              in case newBasePos of
                   None \<Rightarrow> None
                 | Some nb \<Rightarrow>
                     (case newTargetPos of
                        None \<Rightarrow> None
                      | Some nt \<Rightarrow>
                          (let newDOffset = nt - nb
                           in Some (if isRowSplice then a\<lparr>dRow := newDOffset\<rparr>
                                    else a\<lparr>dCol := newDOffset\<rparr>)))))"

definition transformRange :: "rangeRef \<Rightarrow> splice \<Rightarrow> axisIndex \<Rightarrow> axisIndex \<Rightarrow> rangeRef option" where
  "transformRange rng sp rowAxis colAxis =
     (case transformAnchor (rstart rng) sp rowAxis colAxis of
        None \<Rightarrow> None
      | Some newStart \<Rightarrow>
          (case transformAnchor (rend rng) sp rowAxis colAxis of
             None \<Rightarrow> None
           | Some newEnd \<Rightarrow>
               (let isRowSplice = (axis sp = Row)
                in case (if isRowSplice then idToPos rowAxis (fst (base newStart))
                         else idToPos colAxis (snd (base newStart))) of
                     None \<Rightarrow> None
                   | Some startBasePos \<Rightarrow>
                       (case (if isRowSplice then idToPos rowAxis (fst (base newEnd))
                              else idToPos colAxis (snd (base newEnd))) of
                          None \<Rightarrow> None
                        | Some endBasePos \<Rightarrow>
                            (let startOffset = (if isRowSplice then dRow newStart else dCol newStart);
                                 endOffset = (if isRowSplice then dRow newEnd else dCol newEnd);
                                 finalStartPos = startBasePos + startOffset;
                                 finalEndPos = endBasePos + endOffset
                             in if finalStartPos > finalEndPos then None
                                else Some \<lparr>rstart = newStart, rend = newEnd\<rparr>)))))"

section \<open>Sheet and Table (sheet.ts)\<close>

text \<open>
  The \<^verbatim>\<open>CellStore\<close> is a Map from address keys to cells. A \<^verbatim>\<open>Table\<close> holds
  nothing but its \<^verbatim>\<open>Sheet\<close>, so the operations of \<^verbatim>\<open>Table\<close> take and return
  the sheet.
\<close>

record 'n sheet =
  rows :: axisIndex
  cols :: axisIndex
  cells :: "(address \<times> 'n cell) list"
  deps :: depGraph
  ranges :: rangeWatchers

definition newTable :: "nat \<Rightarrow> nat \<Rightarrow> 'n sheet" where
  "newTable initialRows initialCols =
     \<lparr>rows = newAxisIndex initialRows, cols = newAxisIndex initialCols, cells = [],
      deps = emptyDepGraph, ranges = emptyRangeWatchers\<rparr>"

definition posToAddr :: "'n sheet \<Rightarrow> position \<Rightarrow> address option" where
  "posToAddr sh pos =
     (case posToId (rows sh) (fst pos) of
        None \<Rightarrow> None
      | Some rowId \<Rightarrow>
          (case posToId (cols sh) (snd pos) of
             None \<Rightarrow> None
           | Some colId \<Rightarrow> Some (rowId, colId)))"

definition addrToPos :: "'n sheet \<Rightarrow> address \<Rightarrow> position option" where
  "addrToPos sh addr =
     (case idToPos (rows sh) (fst addr) of
        None \<Rightarrow> None
      | Some r \<Rightarrow>
          (case idToPos (cols sh) (snd addr) of
             None \<Rightarrow> None
           | Some c \<Rightarrow> Some (r, c)))"

text \<open>
  \<^verbatim>\<open>expandRange\<close>: the addresses of the rectangle between the two resolved corners, row
  by row; a position without identifiers is skipped.
\<close>

definition expandRange :: "'n sheet \<Rightarrow> rangeRef \<Rightarrow> address list" where
  "expandRange sh rng =
     (case anchorToAddress (rstart rng) (rows sh) (cols sh) of
        None \<Rightarrow> []
      | Some startAddr \<Rightarrow>
          (case anchorToAddress (rend rng) (rows sh) (cols sh) of
             None \<Rightarrow> []
           | Some endAddr \<Rightarrow>
               (case addrToPos sh startAddr of
                  None \<Rightarrow> []
                | Some sPos \<Rightarrow>
                    (case addrToPos sh endAddr of
                       None \<Rightarrow> []
                     | Some ePos \<Rightarrow>
                         concat (map (\<lambda>r. concat (map (\<lambda>c. case posToAddr sh (r, c) of
                                                             None \<Rightarrow> []
                                                           | Some addr \<Rightarrow> [addr])
                                        [min (snd sPos) (snd ePos) ..
                                         max (snd sPos) (snd ePos)]))
                           [min (fst sPos) (fst ePos) ..
                            max (fst sPos) (fst ePos)])))))"

definition collectDependencies :: "'n sheet \<Rightarrow> formula \<Rightarrow> address list" where
  "collectDependencies sh f =
     (case f of
        Ref a \<Rightarrow> (case anchorToAddress a (rows sh) (cols sh) of
                   None \<Rightarrow> []
                 | Some addr \<Rightarrow> [addr])
      | Sum rng \<Rightarrow> expandRange sh rng)"

text \<open>
  \<^verbatim>\<open>topologicalSort\<close>: depth-first search along incoming edges inside \<open>nodes\<close>. The
  set \<^verbatim>\<open>temp\<close> holds the keys on the call stack; a call leaves it as it found it, so it
  is an argument. The state is the pair (\<^verbatim>\<open>visited\<close>, \<^verbatim>\<open>sorted\<close>).
\<close>

function visit ::
  "depGraph \<Rightarrow> address list \<Rightarrow> address list \<Rightarrow> address
   \<Rightarrow> address list \<times> address list \<Rightarrow> address list \<times> address list" where
  "visit g nodes temp key st =
     (if key \<in> set (fst st) then st
      else if key \<in> set temp then st
      else (let st' = fold (\<lambda>depKey s. if depKey \<in> set nodes
                                        then visit g nodes (key # temp) depKey s else s)
                        (getDependencies g key) st
            in (setAdd key (fst st'), snd st' @ [key])))"
  by pat_completeness auto

definition topologicalSort :: "depGraph \<Rightarrow> address list \<Rightarrow> address list" where
  "topologicalSort g nodes = snd (fold (\<lambda>key st. visit g nodes [] key st) nodes ([], []))"

text \<open>
  \<^verbatim>\<open>evalFormula\<close> returns the scalar and the sheet: the branch of \<open>Sum\<close> replaces the
  inbound edges of the formula by the current rectangle and registers the watches before
  it adds the numbers up.
\<close>

definition evalFormula ::
  "('n::{zero,plus}) sheet \<Rightarrow> formula \<Rightarrow> address \<Rightarrow> 'n scalar \<times> 'n sheet" where
  "evalFormula sh f formulaAddr =
     (case f of
        Ref a \<Rightarrow>
          (case anchorToAddress a (rows sh) (cols sh) of
             None \<Rightarrow> (RefErr, sh)
           | Some targetAddr \<Rightarrow>
               (case map_of (cells sh) targetAddr of
                  None \<Rightarrow> (Num 0, sh)
                | Some (Value v) \<Rightarrow> ((case v of Num n \<Rightarrow> Num n | _ \<Rightarrow> Num 0), sh)
                | Some (Formula ast cached) \<Rightarrow>
                    ((case cached of Some (Num n) \<Rightarrow> Num n | _ \<Rightarrow> Num 0), sh)))
      | Sum rng \<Rightarrow>
          (let cs = expandRange sh rng;
               sh1 = sh\<lparr>deps := replaceAllInbound (deps sh) formulaAddr cs\<rparr>;
               sh2 = sh1\<lparr>ranges := fold (\<lambda>cellAddr rw. registerCell rw cellAddr formulaAddr)
                                       cs (ranges sh1)\<rparr>;
               total = fold (\<lambda>cellAddr acc.
                               case map_of (cells sh2) cellAddr of
                                 None \<Rightarrow> acc
                               | Some (Value v) \<Rightarrow> (case v of Num n \<Rightarrow> acc + n | _ \<Rightarrow> acc)
                               | Some (Formula ast cached) \<Rightarrow>
                                   (case cached of Some (Num n) \<Rightarrow> acc + n | _ \<Rightarrow> acc))
                            cs 0
           in (Num total, sh2)))"

text \<open>
  The body of the loop of \<^verbatim>\<open>recalc\<close>: a key that holds a formula is evaluated and
  the result is written into the cache of the cell read before the evaluation.
\<close>

definition recalcStep :: "address \<Rightarrow> ('n::{zero,plus}) sheet \<Rightarrow> 'n sheet" where
  "recalcStep key sh =
     (case map_of (cells sh) key of
        Some (Formula ast cached) \<Rightarrow>
          (let (v, sh') = evalFormula sh ast key
           in sh'\<lparr>cells := AList.update key (Formula ast (Some v)) (cells sh')\<rparr>)
      | _ \<Rightarrow> sh)"

definition recalc :: "('n::{zero,plus}) sheet \<Rightarrow> address list \<Rightarrow> 'n sheet" where
  "recalc sh dirty =
     (let affected = affectedFrom (deps sh) dirty;
          sorted = topologicalSort (deps sh) affected
      in fold recalcStep sorted sh)"

definition setValue :: "('n::{zero,plus}) sheet \<Rightarrow> position \<Rightarrow> 'n \<Rightarrow> 'n sheet" where
  "setValue sh pos v =
     (case posToAddr sh pos of
        None \<Rightarrow> sh
      | Some addr \<Rightarrow>
          (let sh1 = (case map_of (cells sh) addr of
                        Some (Formula ast cached) \<Rightarrow>
                          sh\<lparr>deps := removeAllEdges (deps sh) addr,
                              ranges := removeWatches (ranges sh) addr\<rparr>
                      | _ \<Rightarrow> sh);
               sh2 = sh1\<lparr>cells := AList.update addr (Value (Num v)) (cells sh1)\<rparr>
           in recalc sh2 [addr]))"

definition setFormula :: "('n::{zero,plus}) sheet \<Rightarrow> position \<Rightarrow> string \<Rightarrow> 'n sheet" where
  "setFormula sh pos src =
     (case posToAddr sh pos of
        None \<Rightarrow> sh
      | Some addr \<Rightarrow>
          (case parseFormula src pos (rows sh) (cols sh) of
             None \<Rightarrow> sh\<lparr>cells := AList.update addr (Value RefErr) (cells sh)\<rparr>
           | Some f \<Rightarrow>
               (let sh1 = sh\<lparr>deps := removeAllEdges (deps sh) addr,
                               ranges := removeWatches (ranges sh) addr\<rparr>;
                    ds = collectDependencies sh1 f
                in if list_ex (\<lambda>dep. wouldCreateCycle (deps sh1) dep addr) ds
                   then sh1\<lparr>cells := AList.update addr (Formula f (Some CycleErr)) (cells sh1)\<rparr>
                   else (let sh2 = sh1\<lparr>deps := fold (\<lambda>dep g. addEdge g dep addr) ds (deps sh1)\<rparr>;
                             sh3 = (case f of
                                      Sum rng \<Rightarrow> sh2\<lparr>ranges := addWatch (ranges sh2) rng addr\<rparr>
                                    | Ref a \<Rightarrow> sh2);
                             sh4 = sh3\<lparr>cells := AList.update addr (Formula f None) (cells sh3)\<rparr>
                         in recalc sh4 [addr]))))"

text \<open>\<open>None\<close> is \<^verbatim>\<open>undefined\<close>: no address, no cell, or a formula without a cache.\<close>

definition getValue :: "'n sheet \<Rightarrow> position \<Rightarrow> 'n scalar option" where
  "getValue sh pos =
     (case posToAddr sh pos of
        None \<Rightarrow> None
      | Some addr \<Rightarrow>
          (case map_of (cells sh) addr of
             None \<Rightarrow> None
           | Some (Value v) \<Rightarrow> Some v
           | Some (Formula ast cached) \<Rightarrow> cached))"


text \<open>
  The first loop of \<^verbatim>\<open>applySplice\<close> over the entries of the store: the state is the
  sheet and the set \<^verbatim>\<open>dirty\<close>. Each step writes only the entry it reads, and the
  indexes are still the ones before the splice.
\<close>

definition transformCell ::
  "splice \<Rightarrow> address \<times> 'n cell \<Rightarrow> 'n sheet \<times> address list \<Rightarrow> 'n sheet \<times> address list" where
  "transformCell sp entry st =
     (let key = fst entry; sh = fst st; dirty = snd st
      in case snd entry of
           Value v \<Rightarrow> st
         | Formula f cached \<Rightarrow>
             (case (case f of
                      Ref a \<Rightarrow> map_option Ref (transformAnchor a sp (rows sh) (cols sh))
                    | Sum rng \<Rightarrow> map_option Sum (transformRange rng sp (rows sh) (cols sh))) of
                None \<Rightarrow>
                  (sh\<lparr>cells := AList.update key (Value RefErr) (cells sh),
                       deps := removeAllEdges (deps sh) key\<rparr>,
                   setAdd key dirty)
              | Some newFormula \<Rightarrow>
                  (sh\<lparr>cells := AList.update key (Formula newFormula cached) (cells sh)\<rparr>,
                   setAdd key dirty)))"

text \<open>The second step of \<^verbatim>\<open>applySplice\<close>: the index of the splice's axis is edited.\<close>

definition spliceAxis :: "splice \<Rightarrow> axisIndex \<Rightarrow> axisIndex" where
  "spliceAxis sp ax =
     (let ax1 = (if ins sp > 0 then snd (insert_ax ax (atPos sp) (ins sp)) else ax)
      in if del sp > 0 then remove_ax ax1 (atPos sp) (atPos sp + del sp - 1) else ax1)"

definition applySplice :: "('n::{zero,plus}) sheet \<Rightarrow> splice \<Rightarrow> 'n sheet" where
  "applySplice sh sp =
     (let (sh1, dirty) = fold (transformCell sp) (cells sh) (sh, []);
          sh2 = (if axis sp = Row then sh1\<lparr>rows := spliceAxis sp (rows sh1)\<rparr>
                 else sh1\<lparr>cols := spliceAxis sp (cols sh1)\<rparr>)
      in recalc sh2 dirty)"

definition insertRows :: "('n::{zero,plus}) sheet \<Rightarrow> int \<Rightarrow> int \<Rightarrow> 'n sheet" where
  "insertRows sh atp count = applySplice sh \<lparr>axis = Row, atPos = atp, del = 0, ins = count\<rparr>"

definition deleteRows :: "('n::{zero,plus}) sheet \<Rightarrow> int \<Rightarrow> int \<Rightarrow> 'n sheet" where
  "deleteRows sh from to =
     applySplice sh \<lparr>axis = Row, atPos = from, del = to - from + 1, ins = 0\<rparr>"

definition insertCols :: "('n::{zero,plus}) sheet \<Rightarrow> int \<Rightarrow> int \<Rightarrow> 'n sheet" where
  "insertCols sh atp count = applySplice sh \<lparr>axis = Col, atPos = atp, del = 0, ins = count\<rparr>"

definition deleteCols :: "('n::{zero,plus}) sheet \<Rightarrow> int \<Rightarrow> int \<Rightarrow> 'n sheet" where
  "deleteCols sh from to =
     applySplice sh \<lparr>axis = Col, atPos = from, del = to - from + 1, ins = 0\<rparr>"

section \<open>Notions used in the statements\<close>

text \<open>
  The scalar a reader finds at an address: the value of a value cell, the cache of a
  formula cell, nothing for a missing cell or an empty cache.
\<close>

definition storedScalar :: "'n sheet \<Rightarrow> address \<Rightarrow> 'n scalar option" where
  "storedScalar sh addr =
     (case map_of (cells sh) addr of
        None \<Rightarrow> None
      | Some (Value v) \<Rightarrow> Some v
      | Some (Formula f cached) \<Rightarrow> cached)"

text \<open>
  The parts of an anchor and of an address along one axis. \<open>anchorTarget\<close> is the
  position an anchor points at along one axis: the position of its base plus its offset
  (\<^verbatim>\<open>targetRowPos\<close> and \<^verbatim>\<open>targetColPos\<close> in \<open>anchorToAddress\<close>,
  \<^verbatim>\<open>targetPos\<close> in \<open>transformAnchor\<close>). It is a position only:
  \<open>anchorToAddress\<close> looks it up with \<open>posToId\<close> on both axes, and the anchor resolves
  to an address only when both positions hold an identifier.
\<close>

definition axisOf :: "axisKind \<Rightarrow> axisIndex \<Rightarrow> axisIndex \<Rightarrow> axisIndex" where
  "axisOf k rowAxis colAxis = (if k = Row then rowAxis else colAxis)"

definition idAlong :: "axisKind \<Rightarrow> address \<Rightarrow> axisId" where
  "idAlong k addr = (if k = Row then fst addr else snd addr)"

definition baseId :: "axisKind \<Rightarrow> anchor \<Rightarrow> axisId" where
  "baseId k a = (if k = Row then fst (base a) else snd (base a))"

definition offsetOf :: "axisKind \<Rightarrow> anchor \<Rightarrow> int" where
  "offsetOf k a = (if k = Row then dRow a else dCol a)"

definition modeOf :: "axisKind \<Rightarrow> anchor \<Rightarrow> rowColMode" where
  "modeOf k a = (if k = Row then rowMode a else colMode a)"

definition anchorTarget :: "axisKind \<Rightarrow> anchor \<Rightarrow> axisIndex \<Rightarrow> int option" where
  "anchorTarget k a ax = map_option (\<lambda>b. b + offsetOf k a) (idToPos ax (baseId k a))"

text \<open>
  The index of axis \<open>k\<close> after the second step of \<open>applySplice\<close>: the axis of the
  splice is edited, the other one is left as it is.
\<close>

definition axisAfter :: "splice \<Rightarrow> axisKind \<Rightarrow> axisIndex \<Rightarrow> axisIndex" where
  "axisAfter sp k ax = (if axis sp = k then spliceAxis sp ax else ax)"

text \<open>
  The steady state of an index: one segment of distinct identifiers, all minted already.
  \<open>firstPos\<close> is the position of its first identifier.
\<close>

definition wfSingle :: "axisIndex \<Rightarrow> bool" where
  "wfSingle ax =
     (case segments ax of
        [seg] \<Rightarrow> distinct (ids seg) \<and> list_all (\<lambda>i. i < nextId ax) (ids seg)
      | _ \<Rightarrow> False)"

definition firstPos :: "axisIndex \<Rightarrow> int" where
  "firstPos ax = (case segments ax of [] \<Rightarrow> 1 | seg # rest \<Rightarrow> startPos seg)"



definition stripCached :: "'n cell \<Rightarrow> 'n cell" where
  "stripCached c = (case c of Value v \<Rightarrow> Value v | Formula f cached \<Rightarrow> Formula f None)"

definition skeleton :: "'n sheet \<Rightarrow> (address \<times> 'n cell) list" where
  "skeleton sh = map (\<lambda>entry. (fst entry, stripCached (snd entry))) (cells sh)"

definition withOffset :: "axisKind \<Rightarrow> anchor \<Rightarrow> int \<Rightarrow> anchor" where
  "withOffset k a d = (if k = Row then a\<lparr>dRow := d\<rparr> else a\<lparr>dCol := d\<rparr>)"






section \<open>Termination of the loops\<close>

lemma getSet_subset: "set (getSet m k) \<subseteq> \<Union>(set ` snd ` set m)"
proof (cases "map_of m k")
  case None
  then show ?thesis by (simp add: getSet_def)
next
  case (Some s)
  then have "(k, s) \<in> set m" by (rule map_of_SomeD)
  then have "set s \<in> set ` snd ` set m" by force
  with Some show ?thesis by (auto simp: getSet_def)
qed

lemma bfsMeasure_skip: "bfsMeasure g queue a \<le> bfsMeasure g (key # queue) a"
  unfolding bfsMeasure_def by (rule card_mono) auto

lemma bfsMeasure_step:
  assumes "key \<notin> set a"
  shows "bfsMeasure g (queue @ filter P (getSet (outgoing g) key)) (a @ [key])
         < bfsMeasure g (key # queue) a"
  unfolding bfsMeasure_def
proof (rule psubset_card_mono)
  show "finite ((set (key # queue) \<union> \<Union>(set ` snd ` set (outgoing g))) - set a)" by simp
  show "(set (queue @ filter P (getSet (outgoing g) key)) \<union> \<Union>(set ` snd ` set (outgoing g)))
          - set (a @ [key])
        \<subset> (set (key # queue) \<union> \<Union>(set ` snd ` set (outgoing g))) - set a"
    using assms getSet_subset[of "outgoing g" key] by auto
qed

termination affectedLoop
proof (relation "(\<lambda>(g, q, a). bfsMeasure g q a) <*mlex*> measure (\<lambda>(g, q, a). length q)")
  show "wf ((\<lambda>(g, q, a). bfsMeasure g q a) <*mlex*> measure (\<lambda>(g, q, a). length q))"
    by (simp add: wf_mlex)
qed (auto intro: mlex_leq mlex_less bfsMeasure_skip bfsMeasure_step)

termination cycleLoop
proof (relation "(\<lambda>(g, f, q, a). bfsMeasure g q a) <*mlex*> measure (\<lambda>(g, f, q, a). length q)")
  show "wf ((\<lambda>(g, f, q, a). bfsMeasure g q a) <*mlex*> measure (\<lambda>(g, f, q, a). length q))"
    by (simp add: wf_mlex)
qed (auto intro: mlex_leq mlex_less bfsMeasure_skip bfsMeasure_step)


termination bitLength
  by (relation "measure nat") auto




text \<open>
  A call of \<open>visit\<close> from a key outside \<open>temp\<close> to a dependency inside \<open>nodes\<close> either
  shrinks the part of \<open>nodes\<close> outside \<open>temp\<close>, or leaves it and moves from a key outside
  \<open>nodes\<close> to one inside.
\<close>

lemma visit_measure:
  assumes "key \<notin> set temp"
  shows "card (set nodes - set (key # temp)) < card (set nodes - set temp)
         \<or> (card (set nodes - set (key # temp)) = card (set nodes - set temp) \<and> key \<notin> set nodes)"
proof (cases "key \<in> set nodes")
  case True
  have "set nodes - set (key # temp) \<subset> set nodes - set temp"
    using True assms by auto
  then have "card (set nodes - set (key # temp)) < card (set nodes - set temp)"
    by (intro psubset_card_mono) auto
  then show ?thesis by simp
next
  case False
  then have "set nodes - set (key # temp) = set nodes - set temp" by auto
  with False show ?thesis by simp
qed

termination visit
proof (relation "(\<lambda>(g, nodes, temp, key, st). card (set nodes - set temp))
                 <*mlex*> measure (\<lambda>(g, nodes, temp, key, st). if key \<in> set nodes then 0 else 1)")
  show "wf ((\<lambda>(g, nodes, temp, key, st). card (set nodes - set temp))
            <*mlex*> measure (\<lambda>(g, nodes, temp, key, st). if key \<in> set nodes then 0 else (1::nat)))"
    by (simp add: wf_mlex)
next
  fix g :: depGraph and nodes temp :: "address list" and key depKey :: address
    and st s :: "address list \<times> address list"
  assume "key \<notin> set (fst st)" "key \<notin> set temp" "depKey \<in> set (getDependencies g key)"
    "depKey \<in> set nodes"
  then show "((g, nodes, key # temp, depKey, s), (g, nodes, temp, key, st))
       \<in> (\<lambda>(g, nodes, temp, key, st). card (set nodes - set temp))
          <*mlex*> measure (\<lambda>(g, nodes, temp, key, st). if key \<in> set nodes then 0 else 1)"
    using visit_measure[of key temp nodes]
    by (auto intro: mlex_less mlex_leq)
qed

section \<open>The axis index after an append and a removal\<close>

text \<open>
  C9. The claim: in every state of an \<^verbatim>\<open>AxisIndex\<close> reached by inserts and removes,
  \<open>posToId pos = id\<close> exactly when \<open>idToPos id = pos\<close>. On an index of three positions,
  \<^verbatim>\<open>insert(10, 2)\<close> appends a second segment at position 4, and \<^verbatim>\<open>remove({from: 2, to: 2})\<close>
  then moves that segment twice: once in the inner loop of the segment that overlaps the
  range, once more when the loop reaches the segment itself. The segments overlap:
  identifier 3 is at position 2 by \<open>idToPos\<close>, position 2 names identifier 2, and no
  position names identifier 3.
\<close>

theorem C9_remove_double_shift:
  "(let ax = remove_ax (snd (insert_ax (newAxisIndex 3) 10 2)) 2 2
    in segments ax = [\<lparr>startPos = 1, ids = [0, 2]\<rparr>, \<lparr>startPos = 2, ids = [3, 4]\<rparr>]
       \<and> idToPos ax 3 = Some 2 \<and> posToId ax 2 = Some 2
       \<and> idToPos ax 4 = Some 3 \<and> posToId ax 4 = None)"
  by code_simp

text \<open>
  C1. The claim: after any splice a relative anchor whose base and target identifiers
  survive resolves to the same identifier as before. In the sheet of three rows extended by
  \<^verbatim>\<open>insertRows(10, 2)\<close>, the formula \<^verbatim>\<open>=A4\<close> at row 5 (identifier 4) reads the row
  with identifier 3. After \<^verbatim>\<open>deleteRows(2, 2)\<close> both identifiers are still in the
  index, the offset is still \<open>-1\<close> (computed once), and the anchor resolves to identifier 2:
  the index moved the second segment twice.
\<close>

theorem C1_rel_anchor_loses_target:
  "(let s0 = setFormula (insertRows (newTable 3 1 :: int sheet) 10 2) (5, 1) ''=A4'';
        a0 = \<lparr>base = (4, 0), rowMode = Rel, colMode = Rel, dRow = - 1, dCol = 0\<rparr>;
        s1 = deleteRows s0 2 2
    in map_of (cells s0) (4, 0) = Some (Formula (Ref a0) (Some (Num 0)))
       \<and> anchorToAddress a0 (rows s0) (cols s0) = Some (3, 0)
       \<and> map_of (cells s1) (4, 0) = Some (Formula (Ref a0) (Some (Num 0)))
       \<and> idToPos (rows s1) 4 = Some 3 \<and> idToPos (rows s1) 3 = Some 2
       \<and> anchorToAddress a0 (rows s1) (cols s1) = Some (2, 0))"
  by code_simp

section \<open>The edges of a cell that is written again\<close>

text \<open>
  C4. The claim: a formula one of whose producers would close a dependency cycle is stored
  with the cached value \<^verbatim>\<open>#CYCLE!\<close> and without edges. With \<^verbatim>\<open>=A2\<close> in A1, the
  graph holds the edge from A2 to A1, and \<open>wouldCreateCycle\<close> is true of the producer A1 of
  \<^verbatim>\<open>=A1\<close> written into A2. \<^verbatim>\<open>setFormula\<close> calls \<^verbatim>\<open>removeAll\<close> on A2 before the
  test, which retracts that edge: the test finds no path, the formula is stored with the
  value 0 and the edge from A1 to A2 is installed.
\<close>

theorem C4_cycle_not_detected:
  "(let s1 = setFormula (newTable 2 1 :: int sheet) (1, 1) ''=A2'';
        s2 = setFormula s1 (2, 1) ''=A1''
    in collectDependencies s1 (Ref \<lparr>base = (1, 0), rowMode = Rel, colMode = Rel, dRow = - 1, dCol = 0\<rparr>)
         = [(0, 0)]
       \<and> wouldCreateCycle (deps s1) (0, 0) (1, 0)
       \<and> map_of (cells s2) (1, 0)
           = Some (Formula (Ref \<lparr>base = (1, 0), rowMode = Rel, colMode = Rel, dRow = - 1, dCol = 0\<rparr>)
                     (Some (Num 0)))
       \<and> getValue s2 (2, 1) = Some (Num 0)
       \<and> deps s2 = \<lparr>outgoing = [((0, 0), [(1, 0)])], incoming = [((1, 0), [(0, 0)])]\<rparr>)"
  by code_simp

text \<open>
  C10. The claim: after every public operation a \<open>Sum\<close> formula with a numeric cache has an
  inbound edge from every address of its rectangle. With \<^verbatim>\<open>=SUM(A1:A4)\<close> in A5, writing
  the formula \<^verbatim>\<open>=B1\<close> into A2 calls \<^verbatim>\<open>removeAll\<close> on A2, which retracts the
  edge from A2 to A5 as well; nothing installs it again. A5 keeps the cache 0 and the
  rectangle A1:A4, and a later \<^verbatim>\<open>setValue\<close> of 9 into B1 changes A2 to 9 and leaves A5
  at 0.
\<close>

theorem C10_sum_edge_lost:
  "(let s1 = setFormula (newTable 5 2 :: int sheet) (5, 1) ''=SUM(A1:A4)'';
        s2 = setFormula s1 (2, 1) ''=B1'';
        s3 = setValue s2 (1, 2) 9;
        rng = \<lparr>rstart = \<lparr>base = (4, 0), rowMode = Rel, colMode = Rel, dRow = - 4, dCol = 0\<rparr>,
               rend = \<lparr>base = (4, 0), rowMode = Rel, colMode = Rel, dRow = - 1, dCol = 0\<rparr>\<rparr>
    in map_of (cells s2) (4, 0) = Some (Formula (Sum rng) (Some (Num 0)))
       \<and> expandRange s2 rng = [(0, 0), (1, 0), (2, 0), (3, 0)]
       \<and> getDependencies (deps s2) (4, 0) = [(0, 0), (2, 0), (3, 0)]
       \<and> getDependents (deps s2) (1, 0) = []
       \<and> getValue s3 (2, 1) = Some (Num 9)
       \<and> getValue s3 (5, 1) = Some (Num 0))"
  by code_simp

section \<open>Evaluation of a reference\<close>

text \<open>
  C3, as the claim states it: a reference to a cell that holds an error sentinel evaluates
  to that sentinel. In the sheet below A1 holds \<^verbatim>\<open>#REF!\<close> (a text that does not parse)
  and A2 is a formula cached as \<^verbatim>\<open>#CYCLE!\<close> (it reads itself); a reference to either
  evaluates to 0, and so does the formula \<^verbatim>\<open>=A1\<close> written into A3.
\<close>

theorem C3_error_cell_reads_zero:
  "(let s1 = setFormula (setFormula (newTable 3 1 :: int sheet) (1, 1) ''A2'') (2, 1) ''=A2'';
        a1 = \<lparr>base = (2, 0), rowMode = Rel, colMode = Rel, dRow = - 2, dCol = 0\<rparr>;
        a2 = \<lparr>base = (2, 0), rowMode = Rel, colMode = Rel, dRow = - 1, dCol = 0\<rparr>
    in storedScalar s1 (0, 0) = Some RefErr
       \<and> anchorToAddress a1 (rows s1) (cols s1) = Some (0, 0)
       \<and> fst (evalFormula s1 (Ref a1) (2, 0)) = Num 0
       \<and> storedScalar s1 (1, 0) = Some CycleErr
       \<and> anchorToAddress a2 (rows s1) (cols s1) = Some (1, 0)
       \<and> fst (evalFormula s1 (Ref a2) (2, 0)) = Num 0
       \<and> getValue (setFormula s1 (3, 1) ''=A1'') (3, 1) = Some (Num 0))"
  by code_simp

text \<open>
  C3, amended: evaluating \<open>Ref anchor\<close> yields \<^verbatim>\<open>#REF!\<close> exactly for an anchor that does
  not resolve; for a resolved anchor it yields the number stored (or cached) at the target
  and 0 in every other case: a missing cell, an error sentinel, an empty cache. The sheet
  is left as it was.
\<close>

theorem C3_ref_reads_number_or_zero:
  "fst (evalFormula sh (Ref a) fa) =
     (case anchorToAddress a (rows sh) (cols sh) of
        None \<Rightarrow> RefErr
      | Some t \<Rightarrow> (case storedScalar sh t of Some (Num n) \<Rightarrow> Num n | _ \<Rightarrow> Num 0))
   \<and> snd (evalFormula sh (Ref a) fa) = sh"
  by (simp add: evalFormula_def storedScalar_def
           split: option.splits cell.splits scalar.splits)

section \<open>The keys of the store under a splice\<close>

lemma update_keys_present:
  "map_of al k = Some c \<Longrightarrow> map fst (AList.update k c' al) = map fst al"
  by (induction al) (auto split: if_splits)

lemma update_keys_member:
  "k \<in> fst ` set al \<Longrightarrow> map fst (AList.update k c' al) = map fst al"
  by (induction al) (auto split: if_splits)

lemma evalFormula_cells [simp]: "cells (snd (evalFormula sh f a)) = cells sh"
  by (cases f) (auto simp: evalFormula_def Let_def split: option.splits cell.splits scalar.splits)

lemma evalFormula_rows [simp]: "rows (snd (evalFormula sh f a)) = rows sh"
  by (cases f) (auto simp: evalFormula_def Let_def split: option.splits cell.splits scalar.splits)

lemma evalFormula_cols [simp]: "cols (snd (evalFormula sh f a)) = cols sh"
  by (cases f) (auto simp: evalFormula_def Let_def split: option.splits cell.splits scalar.splits)

lemma recalcStep_keys: "map fst (cells (recalcStep key sh)) = map fst (cells sh)"
  by (auto simp: recalcStep_def update_keys_present split_beta Let_def
           split: option.splits cell.splits)

lemma fold_recalcStep_keys: "map fst (cells (fold recalcStep ks sh)) = map fst (cells sh)"
  by (induction ks arbitrary: sh) (simp_all add: recalcStep_keys)

lemma recalc_keys: "map fst (cells (recalc sh dirty)) = map fst (cells sh)"
  by (simp add: recalc_def Let_def fold_recalcStep_keys)

lemma transformCell_keys:
  "fst entry \<in> fst ` set (cells (fst st))
   \<Longrightarrow> map fst (cells (fst (transformCell sp entry st))) = map fst (cells (fst st))"
  by (auto simp: transformCell_def Let_def update_keys_member split: cell.splits option.splits)

lemma fold_transformCell_keys:
  "fst ` set es \<subseteq> fst ` set (cells (fst st))
   \<Longrightarrow> map fst (cells (fst (fold (transformCell sp) es st))) = map fst (cells (fst st))"
proof (induction es arbitrary: st)
  case Nil
  then show ?case by simp
next
  case (Cons e es)
  have k: "map fst (cells (fst (transformCell sp e st))) = map fst (cells (fst st))"
    using Cons.prems by (intro transformCell_keys) auto
  have "fst ` set es \<subseteq> fst ` set (cells (fst (transformCell sp e st)))"
  proof -
    have "fst ` set (cells (fst (transformCell sp e st)))
          = set (map fst (cells (fst (transformCell sp e st))))"
      by simp
    also have "\<dots> = set (map fst (cells (fst st)))" by (simp only: k)
    finally show ?thesis using Cons.prems by auto
  qed
  from Cons.IH[OF this] k show ?case by simp
qed

lemma applySplice_keys: "map fst (cells (applySplice sh sp)) = map fst (cells sh)"
proof -
  obtain sh1 dirty where f: "fold (transformCell sp) (cells sh) (sh, []) = (sh1, dirty)"
    by (cases "fold (transformCell sp) (cells sh) (sh, [])")
  have k1: "map fst (cells sh1) = map fst (cells sh)"
    using fold_transformCell_keys[of "cells sh" "(sh, [])" sp] f by simp
  show ?thesis
    using k1 by (simp add: applySplice_def f recalc_keys)
qed

text \<open>
  C2, as the claim states it: deleting every position of an axis empties the store. After
  \<^verbatim>\<open>setValue({r:1,c:1}, 5)\<close> on a sheet of two rows, \<^verbatim>\<open>deleteRows(1, 2)\<close> retires both
  row identifiers, and the store still holds the cell keyed by the retired identifier 0;
  no position leads to it.
\<close>

theorem C2_deleted_rows_keep_cells:
  "(let s = deleteRows (setValue (newTable 2 1 :: int sheet) (1, 1) 5) 1 2
    in cells s = [((0, 0), Value (Num 5))] \<and> segments (rows s) = []
       \<and> idToPos (rows s) 0 = None \<and> posToAddr s (1, 1) = None)"
  by code_simp

text \<open>
  C2, amended: a splice, and so each of \<^verbatim>\<open>insertRows\<close>, \<^verbatim>\<open>deleteRows\<close>,
  \<^verbatim>\<open>insertCols\<close> and \<^verbatim>\<open>deleteCols\<close>, removes no cell and adds none: the store has
  the same keys in the same order after it. Identifiers are retired in the index only.
\<close>

theorem C2_splice_keeps_every_key:
  "map fst (cells (applySplice sh sp)) = map fst (cells sh)
   \<and> map fst (cells (insertRows sh atp n)) = map fst (cells sh)
   \<and> map fst (cells (deleteRows sh from to)) = map fst (cells sh)
   \<and> map fst (cells (insertCols sh atp n)) = map fst (cells sh)
   \<and> map fst (cells (deleteCols sh from to)) = map fst (cells sh)"
  by (simp add: insertRows_def deleteRows_def insertCols_def deleteCols_def applySplice_keys)

section \<open>An index of one segment under an insert and a remove\<close>

lemma indexOf_Some: "indexOf xs x = Some i \<Longrightarrow> i < length xs \<and> xs ! i = x"
  by (induction xs arbitrary: i) (auto split: if_splits)

lemma indexOf_None: "indexOf xs x = None \<longleftrightarrow> x \<notin> set xs"
  by (induction xs) auto

lemma indexOf_append:
  "indexOf (xs @ ys) x =
     (case indexOf xs x of Some i \<Rightarrow> Some i
      | None \<Rightarrow> map_option (\<lambda>j. length xs + j) (indexOf ys x))"
proof (cases "indexOf ys x")
  case None
  then show ?thesis by (induction xs) (auto split: option.splits)
next
  case (Some j)
  then show ?thesis by (induction xs) (auto split: option.splits)
qed

lemma indexOf_take:
  "indexOf xs x = Some idx \<Longrightarrow> indexOf (take a xs) x = (if idx < a then Some idx else None)"
proof (induction xs arbitrary: a idx)
  case Nil
  then show ?case by simp
next
  case (Cons y ys)
  show ?case
  proof (cases a)
    case 0
    then show ?thesis by simp
  next
    case (Suc a')
    show ?thesis
    proof (cases "y = x")
      case True
      with Cons.prems Suc show ?thesis by simp
    next
      case False
      with Cons.prems obtain j where j: "indexOf ys x = Some j" "idx = Suc j" by auto
      from Cons.IH[OF j(1), of a'] False Suc j show ?thesis by simp
    qed
  qed
qed

lemma indexOf_drop:
  "distinct xs \<Longrightarrow> indexOf xs x = Some idx
   \<Longrightarrow> indexOf (drop b xs) x = (if b \<le> idx then Some (idx - b) else None)"
proof (induction xs arbitrary: b idx)
  case Nil
  then show ?case by simp
next
  case (Cons y ys)
  show ?case
  proof (cases b)
    case 0
    with Cons.prems show ?thesis by simp
  next
    case (Suc b')
    show ?thesis
    proof (cases "y = x")
      case True
      with Cons.prems have "x \<notin> set ys" "idx = 0" by auto
      then have "x \<notin> set (drop b' ys)" by (meson in_set_dropD)
      with Suc \<open>idx = 0\<close> show ?thesis by (simp add: indexOf_None)
    next
      case False
      with Cons.prems obtain j where j: "indexOf ys x = Some j" "idx = Suc j" by auto
      from Cons.prems have "distinct ys" by simp
      from Cons.IH[OF this j(1), of b'] Suc j show ?thesis by simp
    qed
  qed
qed

lemma wfSingleE:
  assumes "wfSingle ax"
  obtains seg where "segments ax = [seg]" "distinct (ids seg)" "\<forall>i\<in>set (ids seg). i < nextId ax"
  using assms unfolding wfSingle_def
  by (auto split: list.splits simp: list_all_iff)

lemma idToPos_single:
  "segments ax = [seg] \<Longrightarrow> idToPos ax i = map_option (\<lambda>idx. startPos seg + int idx) (indexOf (ids seg) i)"
  by (simp add: idToPos_def split: option.splits)

lemma insert_single_idToPos:
  assumes wf: "wfSingle ax" and at: "firstPos ax \<le> atp" and c: "count > 0"
    and b: "idToPos ax i = Some b"
  shows "idToPos (snd (insert_ax ax atp count)) i = Some (if b \<ge> atp then b + count else b)"
proof -
  from wf obtain seg where seg: "segments ax = [seg]" "distinct (ids seg)"
    "\<forall>i\<in>set (ids seg). i < nextId ax" by (rule wfSingleE)
  let ?s = "startPos seg" and ?xs = "ids seg"
  let ?new = "[nextId ax ..< nextId ax + nat count]"
  from b seg obtain idx where idx: "indexOf ?xs i = Some idx" "b = ?s + int idx"
    by (auto simp: idToPos_single)
  from idx have ilen: "idx < length ?xs" "i \<in> set ?xs" using indexOf_Some[OF idx(1)] by auto
  then have inew: "indexOf ?new i = None" using seg(3) by (auto simp: indexOf_None)
  from at seg have s: "?s \<le> atp" by (simp add: firstPos_def)
  show ?thesis
  proof (cases "atp \<le> ?s + int (length ?xs)")
    case True
    let ?off = "nat (atp - ?s)"
    have segs: "segments (snd (insert_ax ax atp count))
                = [seg\<lparr>ids := take ?off ?xs @ ?new @ drop ?off ?xs\<rparr>]"
      using True s seg by (simp add: insert_ax_def Let_def)
    have off: "?off \<le> length ?xs" using True s by simp
    have "indexOf (take ?off ?xs @ ?new @ drop ?off ?xs) i
          = (if idx < ?off then Some idx else Some (idx + nat count))"
      using idx(1) seg(2) off inew c
      by (auto simp: indexOf_append indexOf_take indexOf_drop)
    then show ?thesis
      using segs idx(2) s c by (auto simp: idToPos_def)
  next
    case False
    have "segments (snd (insert_ax ax atp count))
          = [seg, \<lparr>startPos = ?s + int (length ?xs), ids = ?new\<rparr>]"
      using False s seg by (simp add: insert_ax_def Let_def)
    then show ?thesis
      using idx False ilen by (auto simp: idToPos_def)
  qed
qed

lemma remove_single_idToPos:
  assumes wf: "wfSingle ax" and at: "firstPos ax \<le> from" and ft: "from \<le> to"
    and b: "idToPos ax i = Some b" and nd: "b < from \<or> to < b"
  shows "idToPos (remove_ax ax from to) i = Some (if to < b then b - (to - from + 1) else b)"
proof -
  from wf obtain seg where seg: "segments ax = [seg]" "distinct (ids seg)"
    "\<forall>i\<in>set (ids seg). i < nextId ax" by (rule wfSingleE)
  let ?s = "startPos seg" and ?xs = "ids seg"
  from b seg obtain idx where idx: "indexOf ?xs i = Some idx" "b = ?s + int idx"
    by (auto simp: idToPos_single)
  from idx have ilen: "idx < length ?xs" using indexOf_Some[OF idx(1)] by auto
  from at seg have s: "?s \<le> from" by (simp add: firstPos_def)
  let ?segEnd = "?s + int (length ?xs) - 1"
  show ?thesis
  proof (cases "from > ?segEnd")
    case True
    then have "segments (remove_ax ax from to) = [seg]"
      using s ft seg by (simp add: remove_ax_def Let_def)
    then show ?thesis using idx ilen True ft by (auto simp: idToPos_def)
  next
    case False
    let ?off = "nat (from - ?s)"
    let ?cnt = "nat (min to ?segEnd - from + 1)"
    let ?ids' = "take ?off ?xs @ drop (?off + ?cnt) ?xs"
    have ix: "indexOf ?ids' i = (if to < b then Some (idx - ?cnt) else Some idx)"
      using idx seg(2) nd s ft False ilen
      by (auto simp: indexOf_append indexOf_take indexOf_drop)
    then have ne: "?ids' \<noteq> []" by (metis indexOf.simps(1) option.distinct(1))
    have segs: "segments (remove_ax ax from to) = [seg\<lparr>ids := ?ids'\<rparr>]"
      using False s ft seg ne by (simp add: remove_ax_def Let_def max_def)
    show ?thesis
      using segs ix idx(2) nd s ft False ilen
      by (auto simp: idToPos_def min_def split: if_splits)
  qed
qed

text \<open>
  On an index of one segment of distinct identifiers the two look-ups are inverse, and an
  insert inside the axis or a remove that leaves an identifier keeps the index so. An
  insert beyond the end appends a second segment, of fresh identifiers, right after the
  first; the look-ups are inverse there as well.
\<close>

lemma indexOf_nth: "distinct xs \<Longrightarrow> i < length xs \<Longrightarrow> indexOf xs (xs ! i) = Some i"
proof (induction xs arbitrary: i)
  case Nil
  then show ?case by simp
next
  case (Cons y ys)
  show ?case
  proof (cases i)
    case 0
    then show ?thesis by simp
  next
    case (Suc j)
    with Cons.prems have "j < length ys" "ys ! j \<in> set ys" "y \<notin> set ys" "distinct ys" by auto
    with Cons.IH[of j] Suc show ?thesis by auto
  qed
qed

lemma posToId_single:
  "segments ax = [seg]
   \<Longrightarrow> posToId ax p = (if startPos seg \<le> p \<and> p \<le> startPos seg + int (length (ids seg)) - 1
                       then Some (ids seg ! nat (p - startPos seg)) else None)"
  by (simp add: posToId_def Let_def)

lemma single_bijection:
  assumes "wfSingle ax"
  shows "posToId ax p = Some i \<longleftrightarrow> idToPos ax i = Some p"
proof -
  from assms obtain seg where seg: "segments ax = [seg]" "distinct (ids seg)"
    "\<forall>i\<in>set (ids seg). i < nextId ax" by (rule wfSingleE)
  let ?s = "startPos seg" and ?xs = "ids seg"
  show ?thesis
  proof
    assume "posToId ax p = Some i"
    then have r: "?s \<le> p" "p \<le> ?s + int (length ?xs) - 1" "i = ?xs ! nat (p - ?s)"
      using seg(1) by (auto simp: posToId_single split: if_splits)
    then have "nat (p - ?s) < length ?xs" by auto
    from indexOf_nth[OF seg(2) this] r show "idToPos ax i = Some p"
      using seg(1) by (simp add: idToPos_single)
  next
    assume "idToPos ax i = Some p"
    then obtain idx where idx: "indexOf ?xs i = Some idx" "p = ?s + int idx"
      using seg(1) by (auto simp: idToPos_single)
    from indexOf_Some[OF idx(1)] idx(2) show "posToId ax p = Some i"
      using seg(1) by (auto simp: posToId_single)
  qed
qed

lemma remove_keeps_single:
  assumes wf: "wfSingle ax" and at: "firstPos ax \<le> from" and ft: "from \<le> to"
    and ne: "segments (remove_ax ax from to) \<noteq> []"
  shows "wfSingle (remove_ax ax from to)"
proof -
  from wf obtain seg where seg: "segments ax = [seg]" "distinct (ids seg)"
    "\<forall>i\<in>set (ids seg). i < nextId ax" by (rule wfSingleE)
  let ?s = "startPos seg" and ?xs = "ids seg"
  from at seg have s: "?s \<le> from" by (simp add: firstPos_def)
  let ?segEnd = "?s + int (length ?xs) - 1"
  show ?thesis
  proof (cases "from > ?segEnd")
    case True
    then have "segments (remove_ax ax from to) = [seg]"
      using s ft seg by (simp add: remove_ax_def Let_def)
    with seg show ?thesis by (simp add: wfSingle_def remove_ax_def list_all_iff)
  next
    case False
    let ?off = "nat (from - ?s)"
    let ?cnt = "nat (min to ?segEnd - from + 1)"
    let ?ids' = "take ?off ?xs @ drop (?off + ?cnt) ?xs"
    have segs: "segments (remove_ax ax from to) = (if ?ids' = [] then [] else [seg\<lparr>ids := ?ids'\<rparr>])"
    proof (cases "to \<le> ?segEnd")
      case True
      then show ?thesis
        using False s ft seg by (simp add: remove_ax_def Let_def max_def min_def)
    next
      case F: False
      then show ?thesis
        using False s ft seg by (simp add: remove_ax_def Let_def max_def min_def)
    qed
    with ne have n2: "?ids' \<noteq> []" by auto
    have dj: "set (take ?off ?xs) \<inter> set (drop (?off + ?cnt) ?xs) = {}"
      using seg(2) by (intro set_take_disj_set_drop_if_distinct) auto
    have d: "distinct ?ids'"
      using seg(2) dj by (simp add: distinct_take distinct_drop)
    have b: "\<forall>i\<in>set ?ids'. i < nextId ax"
      using seg(3) by (auto dest!: in_set_takeD in_set_dropD)
    show ?thesis
      using segs n2 d b by (simp add: wfSingle_def list_all_iff remove_ax_def)
  qed
qed

lemma insert_keeps_single:
  assumes wf: "wfSingle ax" and at: "firstPos ax \<le> atp" "atp \<le> maxPos ax + 1" and n: "1 \<le> n"
  shows "wfSingle (snd (insert_ax ax atp n))"
    and "firstPos (snd (insert_ax ax atp n)) = firstPos ax"
proof -
  from wf obtain seg where seg: "segments ax = [seg]" "distinct (ids seg)"
    "\<forall>i\<in>set (ids seg). i < nextId ax" by (rule wfSingleE)
  let ?s = "startPos seg" and ?xs = "ids seg"
  let ?new = "[nextId ax ..< nextId ax + nat n]"
  let ?off = "nat (atp - ?s)"
  from at seg have s: "?s \<le> atp" "atp \<le> ?s + int (length ?xs)"
    by (simp_all add: firstPos_def maxPos_def)
  have segs: "segments (snd (insert_ax ax atp n))
              = [seg\<lparr>ids := take ?off ?xs @ ?new @ drop ?off ?xs\<rparr>]"
    using s seg by (simp add: insert_ax_def Let_def)
  have nid: "nextId (snd (insert_ax ax atp n)) = nextId ax + nat n"
    by (simp add: insert_ax_def Let_def)
  have lt: "\<And>x. x \<in> set (take ?off ?xs) \<Longrightarrow> x < nextId ax"
    "\<And>x. x \<in> set (drop ?off ?xs) \<Longrightarrow> x < nextId ax"
    using seg(3) by (auto dest: in_set_takeD in_set_dropD)
  have dj: "set (take ?off ?xs) \<inter> set (drop ?off ?xs) = {}"
    using seg(2) by (simp add: set_take_disj_set_drop_if_distinct)
  have d: "distinct (take ?off ?xs @ ?new @ drop ?off ?xs)"
    using seg(2) dj lt by (fastforce simp: distinct_take distinct_drop)
  have b: "\<forall>i\<in>set (take ?off ?xs @ ?new @ drop ?off ?xs). i < nextId ax + nat n"
    using seg(3) by (auto dest!: in_set_takeD in_set_dropD)
  show "wfSingle (snd (insert_ax ax atp n))"
    using segs nid d b by (simp add: wfSingle_def list_all_iff)
  show "firstPos (snd (insert_ax ax atp n)) = firstPos ax"
    using segs seg by (simp add: firstPos_def)
qed

lemma two_segment_bijection:
  assumes segs: "segments ax = [s1, s2]"
    and d: "distinct (ids s1 @ ids s2)"
    and st: "startPos s2 = startPos s1 + int (length (ids s1))"
  shows "posToId ax p = Some i \<longleftrightarrow> idToPos ax i = Some p"
proof
  from d have d1: "distinct (ids s1)" and d2: "distinct (ids s2)"
    and dj: "set (ids s1) \<inter> set (ids s2) = {}" by auto
  assume "posToId ax p = Some i"
  then consider (a) "startPos s1 \<le> p" "p \<le> startPos s1 + int (length (ids s1)) - 1"
      "i = ids s1 ! nat (p - startPos s1)"
    | (b) "\<not> (startPos s1 \<le> p \<and> p \<le> startPos s1 + int (length (ids s1)) - 1)"
      "startPos s2 \<le> p" "p \<le> startPos s2 + int (length (ids s2)) - 1"
      "i = ids s2 ! nat (p - startPos s2)"
    using segs by (auto simp: posToId_def Let_def split: if_splits)
  then show "idToPos ax i = Some p"
  proof cases
    case a
    then have "nat (p - startPos s1) < length (ids s1)" by auto
    from indexOf_nth[OF d1 this] a show ?thesis using segs by (simp add: idToPos_def)
  next
    case b
    then have l: "nat (p - startPos s2) < length (ids s2)" by auto
    then have "i \<in> set (ids s2)" using b(4) by simp
    with dj have "i \<notin> set (ids s1)" by auto
    then have "indexOf (ids s1) i = None" by (simp add: indexOf_None)
    with indexOf_nth[OF d2 l] b show ?thesis using segs by (simp add: idToPos_def)
  qed
next
  from d have d1: "distinct (ids s1)" and d2: "distinct (ids s2)"
    and dj: "set (ids s1) \<inter> set (ids s2) = {}" by auto
  assume "idToPos ax i = Some p"
  then consider (a) idx where "indexOf (ids s1) i = Some idx" "p = startPos s1 + int idx"
    | (b) idx where "indexOf (ids s1) i = None" "indexOf (ids s2) i = Some idx"
        "p = startPos s2 + int idx"
    using segs by (auto simp: idToPos_def split: option.splits)
  then show "posToId ax p = Some i"
  proof cases
    case a
    from indexOf_Some[OF a(1)] a(2) show ?thesis
      using segs by (auto simp: posToId_def Let_def)
  next
    case b
    from indexOf_Some[OF b(2)] b(3) st show ?thesis
      using segs by (auto simp: posToId_def Let_def)
  qed
qed

lemma insert_append_segments:
  assumes seg: "segments ax = [seg]" and far: "startPos seg + int (length (ids seg)) < atp"
  shows "segments (snd (insert_ax ax atp n))
         = [seg, \<lparr>startPos = startPos seg + int (length (ids seg)),
                  ids = [nextId ax ..< nextId ax + nat n]\<rparr>]"
  using assms by (simp add: insert_ax_def Let_def)

lemma splice_single_bijection:
  assumes wf: "wfSingle ax" and at: "firstPos ax \<le> atPos sp"
    and pub: "ins sp = 0 \<or> del sp = 0"
  shows "posToId (spliceAxis sp ax) p = Some i \<longleftrightarrow> idToPos (spliceAxis sp ax) i = Some p"
proof -
  from wf obtain seg where seg: "segments ax = [seg]" "distinct (ids seg)"
    "\<forall>i\<in>set (ids seg). i < nextId ax" by (rule wfSingleE)
  consider (ins) "0 < ins sp" "del sp = 0" | (del) "0 < del sp" "ins sp = 0"
    | (none) "ins sp \<le> 0" "del sp \<le> 0" using pub by linarith
  then show ?thesis
  proof cases
    case ins
    then have eq: "spliceAxis sp ax = snd (insert_ax ax (atPos sp) (ins sp))"
      by (simp add: spliceAxis_def Let_def)
    show ?thesis
    proof (cases "atPos sp \<le> maxPos ax + 1")
      case True
      from ins have "1 \<le> ins sp" by simp
      from insert_keeps_single(1)[OF wf at True this] show ?thesis
        unfolding eq by (rule single_bijection)
    next
      case False
      then have far: "startPos seg + int (length (ids seg)) < atPos sp"
        using seg(1) by (simp add: maxPos_def)
      let ?new = "\<lparr>startPos = startPos seg + int (length (ids seg)),
                    ids = [nextId ax ..< nextId ax + nat (ins sp)]\<rparr>"
      have s2: "segments (snd (insert_ax ax (atPos sp) (ins sp))) = [seg, ?new]"
        using seg(1) far by (rule insert_append_segments)
      have d: "distinct (ids seg @ ids ?new)" using seg(2,3) by auto
      show ?thesis unfolding eq by (rule two_segment_bijection[OF s2 d]) simp
    qed
  next
    case del
    then have eq: "spliceAxis sp ax = remove_ax ax (atPos sp) (atPos sp + del sp - 1)"
      by (simp add: spliceAxis_def Let_def)
    show ?thesis
    proof (cases "segments (remove_ax ax (atPos sp) (atPos sp + del sp - 1)) = []")
      case True
      then show ?thesis unfolding eq by (simp add: posToId_def idToPos_def)
    next
      case False
      from del have "atPos sp \<le> atPos sp + del sp - 1" by simp
      from remove_keeps_single[OF wf at this False] show ?thesis
        unfolding eq by (rule single_bijection)
    qed
  next
    case none
    then have "spliceAxis sp ax = ax" by (simp add: spliceAxis_def Let_def)
    with single_bijection[OF wf] show ?thesis by simp
  qed
qed

section \<open>Anchors under a splice\<close>

lemma splice_single_idToPos:
  assumes wf: "wfSingle ax" and at: "firstPos ax \<le> atPos sp"
    and pub: "ins sp = 0 \<or> del sp = 0"
    and b: "idToPos ax i = Some b" and nb: "applySpliceToPos sp b = Some nb"
  shows "idToPos (spliceAxis sp ax) i = Some nb"
proof (cases "del sp > 0")
  case True
  with pub have i0: "ins sp = 0" by auto
  from nb True have nd: "b < atPos sp \<or> atPos sp + del sp - 1 < b"
    by (auto simp: applySpliceToPos_def split: if_splits)
  have "idToPos (remove_ax ax (atPos sp) (atPos sp + del sp - 1)) i
        = Some (if atPos sp + del sp - 1 < b then b - (atPos sp + del sp - 1 - atPos sp + 1) else b)"
    using wf at True b nd by (intro remove_single_idToPos) auto
  then show ?thesis
    using True i0 nb by (auto simp: spliceAxis_def applySpliceToPos_def split: if_splits)
next
  case False
  show ?thesis
  proof (cases "ins sp > 0")
    case True
    have "idToPos (snd (insert_ax ax (atPos sp) (ins sp))) i
          = Some (if b \<ge> atPos sp then b + ins sp else b)"
      using wf at True b by (rule insert_single_idToPos)
    then show ?thesis
      using True False nb by (auto simp: spliceAxis_def applySpliceToPos_def split: if_splits)
  next
    case F2: False
    with False b nb show ?thesis
      by (auto simp: spliceAxis_def applySpliceToPos_def split: if_splits)
  qed
qed

text \<open>What \<open>transformAnchor\<close> returns, along the axis of the splice.\<close>

lemma transformAnchor_SomeD:
  assumes "transformAnchor a sp rowAxis colAxis = Some a'"
  obtains b nb nt where
    "idToPos (axisOf (axis sp) rowAxis colAxis) (baseId (axis sp) a) = Some b"
    "applySpliceToPos sp b = Some nb"
    "(if modeOf (axis sp) a = Rel then applySpliceToPos sp (b + offsetOf (axis sp) a)
      else Some (b + offsetOf (axis sp) a)) = Some nt"
    "a' = (if axis sp = Row then a\<lparr>dRow := nt - nb\<rparr> else a\<lparr>dCol := nt - nb\<rparr>)"
  using assms
  by (cases "axis sp")
     (auto simp: transformAnchor_def Let_def axisOf_def baseId_def offsetOf_def modeOf_def
           split: option.splits if_splits)

lemma transformed_parts:
  assumes "a' = (if k = Row then a\<lparr>dRow := d\<rparr> else a\<lparr>dCol := d\<rparr>)"
  shows "baseId k a' = baseId k a" "offsetOf k a' = d" "modeOf k a' = modeOf k a"
  using assms by (auto simp: baseId_def offsetOf_def modeOf_def)

text \<open>
  \<open>anchorToAddress\<close> reads the identifiers at the positions \<open>anchorTarget\<close> gives for
  the two axes.
\<close>

lemma anchorToAddress_target:
  "anchorToAddress a R C =
     (case anchorTarget Row a R of
        None \<Rightarrow> None
      | Some tr \<Rightarrow>
          (case anchorTarget Col a C of
             None \<Rightarrow> None
           | Some tc \<Rightarrow>
               (case posToId R tr of
                  None \<Rightarrow> None
                | Some r \<Rightarrow> (case posToId C tc of None \<Rightarrow> None | Some c \<Rightarrow> Some (r, c)))))"
  by (simp add: anchorToAddress_def anchorTarget_def baseId_def offsetOf_def Let_def
           split: option.splits)

lemma abs_anchor_pinned:
  assumes wf: "wfSingle (axisOf (axis sp) rowAxis colAxis)"
    and at: "firstPos (axisOf (axis sp) rowAxis colAxis) \<le> atPos sp"
    and pub: "ins sp = 0 \<or> del sp = 0"
    and abs: "modeOf (axis sp) a = Abs"
    and tr: "transformAnchor a sp rowAxis colAxis = Some a'"
  obtains t where
    "anchorTarget (axis sp) a (axisOf (axis sp) rowAxis colAxis) = Some t"
    "anchorTarget (axis sp) a' (spliceAxis sp (axisOf (axis sp) rowAxis colAxis)) = Some t"
proof -
  let ?k = "axis sp" and ?ax = "axisOf (axis sp) rowAxis colAxis"
  from tr obtain b nb nt where
    b: "idToPos ?ax (baseId ?k a) = Some b" and nb: "applySpliceToPos sp b = Some nb"
    and nt: "(if modeOf ?k a = Rel then applySpliceToPos sp (b + offsetOf ?k a)
              else Some (b + offsetOf ?k a)) = Some nt"
    and a': "a' = (if ?k = Row then a\<lparr>dRow := nt - nb\<rparr> else a\<lparr>dCol := nt - nb\<rparr>)"
    by (rule transformAnchor_SomeD)
  from nt abs have t: "nt = b + offsetOf ?k a" by simp
  have nb': "idToPos (spliceAxis sp ?ax) (baseId ?k a) = Some nb"
    using wf at pub b nb by (rule splice_single_idToPos)
  have 1: "anchorTarget ?k a ?ax = Some nt" using b t by (simp add: anchorTarget_def)
  have 2: "anchorTarget ?k a' (spliceAxis sp ?ax) = Some nt"
    using nb' transformed_parts[OF a'] by (simp add: anchorTarget_def)
  from 1 2 show thesis by (rule that)
qed

text \<open>
  \<open>anchorToAddress\<close> seen from one axis: the target position on that axis and the one
  on the other axis are looked up, and the address is the pair of the identifiers found.
  After the splice an absolute anchor is looked up at its old target position in the new
  index of the axis, and as before on the other axis.
\<close>

lemma anchorToAddress_axis:
  "anchorToAddress a R C =
     (case anchorTarget k a (axisOf k R C) of
        None \<Rightarrow> None
      | Some t \<Rightarrow>
          (case anchorTarget (if k = Row then Col else Row) a (if k = Row then C else R) of
             None \<Rightarrow> None
           | Some u \<Rightarrow>
               (case posToId (axisOf k R C) t of
                  None \<Rightarrow> None
                | Some i \<Rightarrow>
                    (case posToId (if k = Row then C else R) u of
                       None \<Rightarrow> None
                     | Some j \<Rightarrow> Some (if k = Row then (i, j) else (j, i))))))"
  by (cases k)
     (auto simp: anchorToAddress_def anchorTarget_def baseId_def offsetOf_def Let_def axisOf_def
           split: option.splits)

lemma abs_anchor_after:
  assumes wf: "wfSingle (axisOf (axis sp) R C)"
    and at: "firstPos (axisOf (axis sp) R C) \<le> atPos sp"
    and pub: "ins sp = 0 \<or> del sp = 0"
    and abs: "modeOf (axis sp) a = Abs"
    and tr: "transformAnchor a sp R C = Some a'"
  obtains t where
    "anchorTarget (axis sp) a (axisOf (axis sp) R C) = Some t"
    "anchorTarget (axis sp) a' (spliceAxis sp (axisOf (axis sp) R C)) = Some t"
    "anchorToAddress a' (axisAfter sp Row R) (axisAfter sp Col C) =
       (case anchorTarget (if axis sp = Row then Col else Row) a (if axis sp = Row then C else R) of
          None \<Rightarrow> None
        | Some u \<Rightarrow>
            (case posToId (spliceAxis sp (axisOf (axis sp) R C)) t of
               None \<Rightarrow> None
             | Some i \<Rightarrow>
                 (case posToId (if axis sp = Row then C else R) u of
                    None \<Rightarrow> None
                  | Some j \<Rightarrow> Some (if axis sp = Row then (i, j) else (j, i)))))"
proof -
  let ?k = "axis sp"
  from wf at pub abs tr obtain t where
    t: "anchorTarget ?k a (axisOf ?k R C) = Some t"
       "anchorTarget ?k a' (spliceAxis sp (axisOf ?k R C)) = Some t"
    by (rule abs_anchor_pinned)
  from tr obtain b nb nt where
    a': "a' = (if ?k = Row then a\<lparr>dRow := nt - nb\<rparr> else a\<lparr>dCol := nt - nb\<rparr>)"
    by (rule transformAnchor_SomeD)
  have other: "anchorTarget (if ?k = Row then Col else Row) a' ax
               = anchorTarget (if ?k = Row then Col else Row) a ax" for ax
    using a' by (cases ?k) (simp_all add: anchorTarget_def baseId_def offsetOf_def)
  have axs: "axisOf ?k (axisAfter sp Row R) (axisAfter sp Col C) = spliceAxis sp (axisOf ?k R C)"
    "(if ?k = Row then axisAfter sp Col C else axisAfter sp Row R) = (if ?k = Row then C else R)"
    by (cases ?k; simp add: axisOf_def axisAfter_def)+
  have "anchorToAddress a' (axisAfter sp Row R) (axisAfter sp Col C) =
       (case anchorTarget (if ?k = Row then Col else Row) a (if ?k = Row then C else R) of
          None \<Rightarrow> None
        | Some u \<Rightarrow>
            (case posToId (spliceAxis sp (axisOf ?k R C)) t of
               None \<Rightarrow> None
             | Some i \<Rightarrow>
                 (case posToId (if ?k = Row then C else R) u of
                    None \<Rightarrow> None
                  | Some j \<Rightarrow> Some (if ?k = Row then (i, j) else (j, i)))))"
  proof (cases ?k)
    case Row
    with axs t other[of C] show ?thesis
      by (subst anchorToAddress_axis[of a' _ _ Row]) (simp add: axisAfter_def split: option.splits)
  next
    case Col
    with axs t other[of R] show ?thesis
      by (subst anchorToAddress_axis[of a' _ _ Col]) (simp add: axisAfter_def split: option.splits)
  qed
  with t show thesis by (rule that)
qed

lemma case3_Some:
  "((case x of None \<Rightarrow> None
     | Some u \<Rightarrow> (case y of None \<Rightarrow> None
                  | Some i \<Rightarrow> (case z u of None \<Rightarrow> None | Some j \<Rightarrow> Some (f i j)))) = Some r)
   \<longleftrightarrow> (\<exists>u i j. x = Some u \<and> y = Some i \<and> z u = Some j \<and> r = f i j)"
  by (auto split: option.splits)


lemma idAlong_pair [simp]:
  "idAlong k (if k = Row then (i, j) else (j, i)) = i"
  by (simp add: idAlong_def)




text \<open>
  C6, as the claim states it: after a splice the position of the address an absolute
  anchor resolves to is the image of its old position under the splice's position map. In
  the sheet of C5 the anchor resolves to the address at position (1,1) before
  \<^verbatim>\<open>insertRows(1,1)\<close>, the map sends row 1 to row 2, and the transformed anchor
  resolves to the address at position (1,1) of the new sheet, the inserted row.
\<close>

theorem C6_abs_resolves_to_old_position:
  "(let s0 = setFormula (setValue (newTable 2 1 :: int sheet) (1, 1) 10) (2, 1) ''=$A$1'';
        sp = \<lparr>axis = Row, atPos = 1, del = 0, ins = 1\<rparr>;
        s1 = insertRows s0 1 1;
        a0 = \<lparr>base = (1, 0), rowMode = Abs, colMode = Abs, dRow = - 1, dCol = 0\<rparr>;
        a1 = \<lparr>base = (1, 0), rowMode = Abs, colMode = Abs, dRow = - 2, dCol = 0\<rparr>
    in map_of (cells s0) (1, 0) = Some (Formula (Ref a0) (Some (Num 10)))
       \<and> anchorToAddress a0 (rows s0) (cols s0) = Some (0, 0)
       \<and> addrToPos s0 (0, 0) = Some (1, 1)
       \<and> applySpliceToPos sp 1 = Some 2
       \<and> map_of (cells s1) (1, 0) = Some (Formula (Ref a1) (Some (Num 0)))
       \<and> anchorToAddress a1 (rows s1) (cols s1) = Some (2, 0)
       \<and> addrToPos s1 (2, 0) = Some (1, 1))"
  by code_simp

text \<open>
  C6, amended: under the hypotheses of C5, for a splice that inserts or deletes something
  and an absolute anchor that resolves after it, the position of the resolved address in
  the new index is the position \<open>t\<close> the anchor pointed at before the splice (the
  position of the address it resolved to then, if it did); it is the image of \<open>t\<close>
  under the position map exactly when \<open>t\<close> lies before the edit point. The witness has
  both cases: a target before the deleted row, and a target at the inserted row.
\<close>

theorem C6_abs_position_is_image_iff_before_edit:
  assumes "wfSingle (axisOf (axis sp) R C)"
    and "firstPos (axisOf (axis sp) R C) \<le> atPos sp"
    and "ins sp = 0 \<or> del sp = 0"
    and "0 < ins sp \<or> 0 < del sp"
    and "modeOf (axis sp) a = Abs"
    and "transformAnchor a sp R C = Some a'"
    and "anchorToAddress a' (axisAfter sp Row R) (axisAfter sp Col C) = Some addr'"
  shows "\<exists>t. anchorTarget (axis sp) a (axisOf (axis sp) R C) = Some t
           \<and> (\<forall>addr. anchorToAddress a R C = Some addr
                 \<longrightarrow> idToPos (axisOf (axis sp) R C) (idAlong (axis sp) addr) = Some t)
           \<and> idToPos (spliceAxis sp (axisOf (axis sp) R C)) (idAlong (axis sp) addr') = Some t
           \<and> (idToPos (spliceAxis sp (axisOf (axis sp) R C)) (idAlong (axis sp) addr')
                = applySpliceToPos sp t \<longleftrightarrow> t < atPos sp)"
proof -
  let ?k = "axis sp" and ?ax = "axisOf (axis sp) R C"
  let ?ax' = "spliceAxis sp (axisOf (axis sp) R C)"
  let ?o = "if ?k = Row then Col else Row" and ?oax = "if ?k = Row then C else R"
  from assms(1,2,3,5,6) obtain t where
    t: "anchorTarget ?k a ?ax = Some t" "anchorTarget ?k a' ?ax' = Some t"
    and after: "anchorToAddress a' (axisAfter sp Row R) (axisAfter sp Col C) =
       (case anchorTarget ?o a ?oax of
          None \<Rightarrow> None
        | Some u \<Rightarrow>
            (case posToId ?ax' t of
               None \<Rightarrow> None
             | Some i \<Rightarrow>
                 (case posToId ?oax u of
                    None \<Rightarrow> None
                  | Some j \<Rightarrow> Some (if ?k = Row then (i, j) else (j, i)))))"
    by (rule abs_anchor_after)
  have before: "anchorToAddress a R C =
       (case anchorTarget ?o a ?oax of
          None \<Rightarrow> None
        | Some u \<Rightarrow>
            (case posToId ?ax t of
               None \<Rightarrow> None
             | Some i \<Rightarrow>
                 (case posToId ?oax u of
                    None \<Rightarrow> None
                  | Some j \<Rightarrow> Some (if ?k = Row then (i, j) else (j, i)))))"
    by (subst anchorToAddress_axis[of a R C ?k]) (simp add: t)
  have bij: "\<And>p i. posToId ?ax p = Some i \<longleftrightarrow> idToPos ?ax i = Some p"
    by (rule single_bijection[OF assms(1)])
  have bij': "\<And>p i. posToId ?ax' p = Some i \<longleftrightarrow> idToPos ?ax' i = Some p"
    by (rule splice_single_bijection[OF assms(1,2,3)])
  have 1: "\<forall>addr. anchorToAddress a R C = Some addr \<longrightarrow> idToPos ?ax (idAlong ?k addr) = Some t"
  proof (intro allI impI)
    fix addr assume "anchorToAddress a R C = Some addr"
    then obtain u i j where "posToId ?ax t = Some i" "addr = (if ?k = Row then (i, j) else (j, i))"
      unfolding before case3_Some by blast
    then show "idToPos ?ax (idAlong ?k addr) = Some t" using bij by simp
  qed
  from assms(7) obtain u i j where
    "posToId ?ax' t = Some i" "addr' = (if ?k = Row then (i, j) else (j, i))"
    unfolding after case3_Some by blast
  then have 2: "idToPos ?ax' (idAlong ?k addr') = Some t" using bij' by simp
  have 3: "applySpliceToPos sp t = Some t \<longleftrightarrow> t < atPos sp"
    using assms(3,4) by (auto simp: applySpliceToPos_def)
  from 2 3 have 4: "idToPos ?ax' (idAlong ?k addr') = applySpliceToPos sp t \<longleftrightarrow> t < atPos sp"
    by (auto simp: eq_commute)
  show ?thesis by (rule exI[of _ t]) (intro conjI t(1) 1 2 4)
qed

theorem C6_abs_position_is_image_iff_before_edit_witness:
  "(let R = newAxisIndex 3; C = newAxisIndex 1;
        sp = \<lparr>axis = Row, atPos = 2, del = 1, ins = 0\<rparr>;
        a = \<lparr>base = (2, 0), rowMode = Abs, colMode = Rel, dRow = - 2, dCol = 0\<rparr>;
        a' = \<lparr>base = (2, 0), rowMode = Abs, colMode = Rel, dRow = - 1, dCol = 0\<rparr>;
        sp2 = \<lparr>axis = Row, atPos = 1, del = 0, ins = 1\<rparr>;
        b' = \<lparr>base = (2, 0), rowMode = Abs, colMode = Rel, dRow = - 3, dCol = 0\<rparr>
    in wfSingle (axisOf (axis sp) R C) \<and> firstPos (axisOf (axis sp) R C) \<le> atPos sp
       \<and> modeOf (axis sp) a = Abs \<and> transformAnchor a sp R C = Some a'
       \<and> anchorToAddress a R C = Some (0, 0) \<and> idToPos R 0 = Some 1
       \<and> anchorToAddress a' (axisAfter sp Row R) (axisAfter sp Col C) = Some (0, 0)
       \<and> idToPos (spliceAxis sp R) 0 = Some 1 \<and> applySpliceToPos sp 1 = Some 1
       \<and> firstPos (axisOf (axis sp2) R C) \<le> atPos sp2
       \<and> transformAnchor a sp2 R C = Some b'
       \<and> anchorToAddress b' (axisAfter sp2 Row R) (axisAfter sp2 Col C) = Some (3, 0)
       \<and> idToPos (spliceAxis sp2 R) 3 = Some 1 \<and> applySpliceToPos sp2 1 = Some 2)"
proof -
  let ?R = "newAxisIndex 3" and ?C = "newAxisIndex 1"
  let ?sp = "\<lparr>axis = Row, atPos = 2, del = 1, ins = 0\<rparr>"
  let ?a = "\<lparr>base = (2, 0), rowMode = Abs, colMode = Rel, dRow = - 2, dCol = 0\<rparr>"
  let ?a' = "\<lparr>base = (2, 0), rowMode = Abs, colMode = Rel, dRow = - 1, dCol = 0\<rparr>"
  let ?sp2 = "\<lparr>axis = Row, atPos = 1, del = 0, ins = 1\<rparr>"
  let ?b' = "\<lparr>base = (2, 0), rowMode = Abs, colMode = Rel, dRow = - 3, dCol = 0\<rparr>"
  have h1: "wfSingle (axisOf (axis ?sp) ?R ?C)" by code_simp
  have h2: "firstPos (axisOf (axis ?sp) ?R ?C) \<le> atPos ?sp" by code_simp
  have h3: "ins ?sp = 0 \<or> del ?sp = 0" by simp
  have h4: "0 < ins ?sp \<or> 0 < del ?sp" by simp
  have h5: "modeOf (axis ?sp) ?a = Abs" by code_simp
  have h6: "transformAnchor ?a ?sp ?R ?C = Some ?a'" by code_simp
  have h7: "anchorToAddress ?a' (axisAfter ?sp Row ?R) (axisAfter ?sp Col ?C) = Some (0, 0)"
    by code_simp
  have r: "anchorToAddress ?a ?R ?C = Some (0, 0)" by code_simp
  have p: "idToPos ?R 0 = Some 1" by code_simp
  have i1: "applySpliceToPos ?sp 1 = Some 1" by code_simp
  have g1: "wfSingle (axisOf (axis ?sp2) ?R ?C)" by code_simp
  have g2: "firstPos (axisOf (axis ?sp2) ?R ?C) \<le> atPos ?sp2" by code_simp
  have g3: "ins ?sp2 = 0 \<or> del ?sp2 = 0" by simp
  have g4: "0 < ins ?sp2 \<or> 0 < del ?sp2" by simp
  have g5: "modeOf (axis ?sp2) ?a = Abs" by code_simp
  have g6: "transformAnchor ?a ?sp2 ?R ?C = Some ?b'" by code_simp
  have g7: "anchorToAddress ?b' (axisAfter ?sp2 Row ?R) (axisAfter ?sp2 Col ?C) = Some (3, 0)"
    by code_simp
  have i2: "applySpliceToPos ?sp2 1 = Some 2" by code_simp
  from C6_abs_position_is_image_iff_before_edit[OF h1 h2 h3 h4 h5 h6 h7] r p
  have c1: "idToPos (spliceAxis ?sp ?R) 0 = Some 1"
    by (auto simp: axisOf_def idAlong_def)
  from C6_abs_position_is_image_iff_before_edit[OF g1 g2 g3 g4 g5 g6 g7] r p
  have c2: "idToPos (spliceAxis ?sp2 ?R) 3 = Some 1"
    by (auto simp: axisOf_def idAlong_def)
  from h1 h2 h5 h6 r p h7 c1 i1 g2 g6 g7 c2 i2 show ?thesis
    unfolding Let_def by (intro conjI)
qed

section \<open>The cells under a recalculation and under a splice\<close>

lemma update_strip:
  "map_of al k = Some c \<Longrightarrow> stripCached c' = stripCached c
   \<Longrightarrow> map (\<lambda>e. (fst e, stripCached (snd e))) (AList.update k c' al)
       = map (\<lambda>e. (fst e, stripCached (snd e))) al"
  by (induction al) (auto split: if_splits)

lemma recalcStep_skeleton: "skeleton (recalcStep key sh) = skeleton sh"
proof (cases "map_of (cells sh) key")
  case None
  then show ?thesis by (simp add: recalcStep_def)
next
  case (Some c)
  show ?thesis
  proof (cases c)
    case (Value v)
    with Some show ?thesis by (simp add: recalcStep_def)
  next
    case (Formula ast cached)
    have "stripCached (Formula ast (Some (fst (evalFormula sh ast key)))) = stripCached c"
      using Formula by (simp add: stripCached_def)
    from update_strip[OF Some this] Some Formula show ?thesis
      by (simp add: recalcStep_def skeleton_def split_beta)
  qed
qed

lemma recalcStep_rows [simp]: "rows (recalcStep key sh) = rows sh"
  by (auto simp: recalcStep_def split_beta Let_def split: option.splits cell.splits)

lemma recalcStep_cols [simp]: "cols (recalcStep key sh) = cols sh"
  by (auto simp: recalcStep_def split_beta Let_def split: option.splits cell.splits)

lemma fold_recalcStep_skeleton:
  "skeleton (fold recalcStep ks sh) = skeleton sh
   \<and> rows (fold recalcStep ks sh) = rows sh \<and> cols (fold recalcStep ks sh) = cols sh"
  by (induction ks arbitrary: sh) (simp_all add: recalcStep_skeleton)

lemma recalc_skeleton [simp]: "skeleton (recalc sh dirty) = skeleton sh"
  by (simp add: recalc_def Let_def fold_recalcStep_skeleton)

lemma recalc_rows [simp]: "rows (recalc sh dirty) = rows sh"
  by (simp add: recalc_def Let_def fold_recalcStep_skeleton)

lemma recalc_cols [simp]: "cols (recalc sh dirty) = cols sh"
  by (simp add: recalc_def Let_def fold_recalcStep_skeleton)


lemma transformCell_rows [simp]: "rows (fst (transformCell sp e st)) = rows (fst st)"
  by (auto simp: transformCell_def Let_def split: cell.splits option.splits)

lemma transformCell_cols [simp]: "cols (fst (transformCell sp e st)) = cols (fst st)"
  by (auto simp: transformCell_def Let_def split: cell.splits option.splits)



lemma skeleton_keys: "map fst (skeleton sh) = map fst (cells sh)"
  by (simp add: skeleton_def comp_def)


section \<open>An insert followed by the matching delete\<close>



lemma withOffset_parts [simp]:
  "baseId k (withOffset k a d) = baseId k a"
  "offsetOf k (withOffset k a d) = d"
  "modeOf k (withOffset k a d) = modeOf k a"
  "withOffset k (withOffset k a d) (offsetOf k a) = a"
  by (auto simp: baseId_def offsetOf_def modeOf_def withOffset_def)








lemma strip_Value: "stripCached c = Value v \<longleftrightarrow> c = Value v"
  by (cases c) (auto simp: stripCached_def)

lemma strip_Formula: "stripCached c = Formula f None \<longleftrightarrow> (\<exists>cc. c = Formula f cc)"
  by (cases c) (auto simp: stripCached_def)












section \<open>The recalculation after a write\<close>

lemma affectedLoop_covers:
  "set affected \<union> set queue \<subseteq> set (affectedLoop g queue affected)"
proof (induction g queue affected rule: affectedLoop.induct)
  case (1 g affected)
  then show ?case by simp
next
  case (2 g key queue affected)
  show ?case
  proof (cases "key \<in> set affected")
    case True
    with 2(1) show ?thesis by auto
  next
    case False
    with 2(2) show ?thesis by auto
  qed
qed


text \<open>The state of the sort: every visited key is in the sorted list.\<close>

lemma fold_keeps:
  assumes "\<And>x s. x \<in> set xs \<Longrightarrow> R s \<Longrightarrow> R (f x s) \<and> set (fst s) \<subseteq> set (fst (f x s))"
    and "R s0"
  shows "R (fold f xs s0) \<and> set (fst s0) \<subseteq> set (fst (fold f xs s0))"
  using assms
proof (induction xs arbitrary: s0)
  case Nil
  then show ?case by simp
next
  case (Cons x xs)
  from Cons.prems(1)[of x s0] Cons.prems(2)
  have 1: "R (f x s0)" "set (fst s0) \<subseteq> set (fst (f x s0))" by auto
  have "R (fold f xs (f x s0)) \<and> set (fst (f x s0)) \<subseteq> set (fst (fold f xs (f x s0)))"
    by (rule Cons.IH) (use Cons.prems(1) 1 in auto)
  with 1 show ?case by auto
qed

lemma visit_keeps:
  "set (fst st) \<subseteq> set (snd st)
   \<Longrightarrow> set (fst (visit g nodes temp key st)) \<subseteq> set (snd (visit g nodes temp key st))
       \<and> set (fst st) \<subseteq> set (fst (visit g nodes temp key st))
       \<and> (key \<in> set temp \<or> key \<in> set (fst (visit g nodes temp key st)))"
proof (induction g nodes temp key st rule: visit.induct)
  case (1 g nodes temp key st)
  show ?case
  proof (cases "key \<in> set (fst st) \<or> key \<in> set temp")
    case True
    with "1.prems" show ?thesis by auto
  next
    case False
    let ?f = "\<lambda>depKey s. if depKey \<in> set nodes then visit g nodes (key # temp) depKey s else s"
    let ?st' = "fold ?f (getDependencies g key) st"
    have "(set (fst ?st') \<subseteq> set (snd ?st')) \<and> set (fst st) \<subseteq> set (fst ?st')"
    proof (rule fold_keeps[where R = "\<lambda>s. set (fst s) \<subseteq> set (snd s)"])
      fix x :: address and s :: "address list \<times> address list"
      assume x: "x \<in> set (getDependencies g key)" and s: "set (fst s) \<subseteq> set (snd s)"
      show "set (fst (?f x s)) \<subseteq> set (snd (?f x s)) \<and> set (fst s) \<subseteq> set (fst (?f x s))"
      proof (cases "x \<in> set nodes")
        case True
        from "1.IH"[of x s] False x True s show ?thesis by simp
      next
        case F: False
        with s show ?thesis by simp
      qed
    next
      show "set (fst st) \<subseteq> set (snd st)" by (rule "1.prems")
    qed
    moreover have "visit g nodes temp key st = (setAdd key (fst ?st'), snd ?st' @ [key])"
      using False by (subst visit.simps) (simp add: Let_def)
    ultimately show ?thesis by (auto simp: setAdd_def)
  qed
qed

lemma topologicalSort_covers: "set nodes \<subseteq> set (topologicalSort g nodes)"
proof -
  let ?f = "\<lambda>key st. visit g nodes [] key st"
  have gen: "set (fst (fold ?f ks s)) \<subseteq> set (snd (fold ?f ks s))
             \<and> set (fst s) \<union> set ks \<subseteq> set (fst (fold ?f ks s))"
    if "set (fst s) \<subseteq> set (snd s)" for ks s
    using that
  proof (induction ks arbitrary: s)
    case Nil
    then show ?case by simp
  next
    case (Cons k ks)
    from visit_keeps[OF Cons.prems, of g nodes "[]" k]
    have 1: "set (fst (?f k s)) \<subseteq> set (snd (?f k s))" "set (fst s) \<subseteq> set (fst (?f k s))"
      "k \<in> set (fst (?f k s))" by auto
    from Cons.IH[OF 1(1)] 1 show ?case by auto
  qed
  from gen[of "([], [])" nodes] show ?thesis
    by (auto simp: topologicalSort_def)
qed

lemma expandRange_cong:
  assumes "rows s = rows s'" "cols s = cols s'"
  shows "expandRange s rng = expandRange s' rng"
proof -
  have 1: "addrToPos s = addrToPos s'"
    using assms by (auto simp: fun_eq_iff addrToPos_def split: option.splits)
  have 2: "posToAddr s = posToAddr s'"
    using assms by (auto simp: fun_eq_iff posToAddr_def split: option.splits)
  show ?thesis
    unfolding expandRange_def 1 2 assms ..
qed

lemma evalSum_total:
  "fst (evalFormula s (Sum rng) fa)
   = Num (fold (\<lambda>cellAddr acc.
                  case map_of (cells s) cellAddr of
                    None \<Rightarrow> acc
                  | Some (Value v) \<Rightarrow> (case v of Num n \<Rightarrow> acc + n | _ \<Rightarrow> acc)
                  | Some (Formula ast cached) \<Rightarrow>
                      (case cached of Some (Num n) \<Rightarrow> acc + n | _ \<Rightarrow> acc))
            (expandRange s rng) 0)"
  by (simp add: evalFormula_def Let_def)


lemma recalcStep_other:
  "a \<noteq> key \<Longrightarrow> map_of (cells (recalcStep key s)) a = map_of (cells s) a"
  by (auto simp: recalcStep_def split_beta update_conv' split: option.splits cell.splits)

lemma recalcStep_formula:
  "map_of (cells s) key = Some (Formula f c)
   \<Longrightarrow> map_of (cells (recalcStep key s)) key = Some (Formula f (Some (fst (evalFormula s f key))))"
  by (simp add: recalcStep_def split_beta update_conv')


lemma recalcStep_numeric:
  assumes "\<exists>m. map_of (cells s) fa = Some (Formula (Sum rng) (Some (Num m)))"
  shows "\<exists>m. map_of (cells (recalcStep key s)) fa = Some (Formula (Sum rng) (Some (Num m)))"
proof (cases "key = fa")
  case True
  from assms obtain m where "map_of (cells s) fa = Some (Formula (Sum rng) (Some (Num m)))" ..
  from recalcStep_formula[OF this] True show ?thesis by (simp add: evalSum_total)
next
  case False
  then have "map_of (cells (recalcStep key s)) fa = map_of (cells s) fa"
    by (intro recalcStep_other) simp
  with assms show ?thesis by simp
qed

lemma fold_recalcStep_numeric:
  assumes "\<exists>m. map_of (cells s) fa = Some (Formula (Sum rng) (Some (Num m)))"
  shows "\<exists>m. map_of (cells (fold recalcStep ks s)) fa = Some (Formula (Sum rng) (Some (Num m)))"
  using assms by (induction ks arbitrary: s) (simp_all add: recalcStep_numeric)

lemma fold_recalcStep_sum:
  assumes "map_of (cells s) fa = Some (Formula (Sum rng) c)" "fa \<in> set ks"
  shows "\<exists>m. map_of (cells (fold recalcStep ks s)) fa = Some (Formula (Sum rng) (Some (Num m)))"
  using assms
proof (induction ks arbitrary: s c)
  case Nil
  then show ?case by simp
next
  case (Cons key ks)
  show ?case
  proof (cases "key = fa")
    case True
    from recalcStep_formula[OF Cons.prems(1)] True
    have "\<exists>m. map_of (cells (recalcStep key s)) fa = Some (Formula (Sum rng) (Some (Num m)))"
      by (simp add: evalSum_total)
    from fold_recalcStep_numeric[OF this] show ?thesis by simp
  next
    case False
    then have "map_of (cells (recalcStep key s)) fa = Some (Formula (Sum rng) c)"
      using Cons.prems(1) recalcStep_other[of fa key s] by simp
    moreover from False Cons.prems(2) have "fa \<in> set ks" by auto
    ultimately show ?thesis using Cons.IH by simp
  qed
qed










section \<open>What holds on an index of one segment\<close>

text \<open>
  X1 (the part of C9 that holds). On an index of one segment with distinct identifiers a
  position names an identifier exactly when the identifier is found at that position, and
  this shape is kept by an insert at a position from the first one to one past the last,
  and by a remove at or after the first position that leaves an identifier.
\<close>

theorem X1_single_segment_bijection:
  assumes "wfSingle ax"
  shows "(posToId ax p = Some i \<longleftrightarrow> idToPos ax i = Some p)
       \<and> (firstPos ax \<le> atp \<and> atp \<le> maxPos ax + 1 \<and> 1 \<le> n
           \<longrightarrow> wfSingle (snd (insert_ax ax atp n)))
       \<and> (firstPos ax \<le> from \<and> from \<le> to \<and> segments (remove_ax ax from to) \<noteq> []
           \<longrightarrow> wfSingle (remove_ax ax from to))"
  using single_bijection[OF assms] insert_keeps_single(1)[OF assms] remove_keeps_single[OF assms]
  by blast

theorem X1_single_segment_bijection_witness:
  "wfSingle (newAxisIndex 3)
   \<and> posToId (newAxisIndex 3) 2 = Some 1 \<and> idToPos (newAxisIndex 3) 1 = Some 2
   \<and> firstPos (newAxisIndex 3) \<le> 2 \<and> 2 \<le> maxPos (newAxisIndex 3) + 1
   \<and> wfSingle (snd (insert_ax (newAxisIndex 3) 2 1))
   \<and> segments (remove_ax (newAxisIndex 3) 2 2) = [\<lparr>startPos = 1, ids = [0, 2]\<rparr>]
   \<and> wfSingle (remove_ax (newAxisIndex 3) 2 2)"
proof -
  have h1: "wfSingle (newAxisIndex 3)" by code_simp
  have h2: "posToId (newAxisIndex 3) 2 = Some 1" by code_simp
  have h3: "firstPos (newAxisIndex 3) \<le> 2" "2 \<le> maxPos (newAxisIndex 3) + 1" by code_simp+
  have h4: "segments (remove_ax (newAxisIndex 3) 2 2) = [\<lparr>startPos = 1, ids = [0, 2]\<rparr>]"
    by code_simp
  from X1_single_segment_bijection[OF h1, of 2 1 2 1 2 2] h1 h2 h3 h4
  show ?thesis by simp
qed

lemma splice_single_posToId:
  assumes wf: "wfSingle ax" and at: "firstPos ax \<le> atPos sp"
    and pub: "ins sp = 0 \<or> del sp = 0"
    and p: "posToId ax p = Some i" and np: "applySpliceToPos sp p = Some p'"
  shows "posToId (spliceAxis sp ax) p' = Some i"
proof -
  from p have ip: "idToPos ax i = Some p" using single_bijection[OF wf] by simp
  have ip': "idToPos (spliceAxis sp ax) i = Some p'"
    using wf at pub ip np by (rule splice_single_idToPos)
  show ?thesis
  proof (cases "del sp > 0")
    case True
    then have sa: "spliceAxis sp ax = remove_ax ax (atPos sp) (atPos sp + del sp - 1)"
      using pub by (auto simp: spliceAxis_def)
    from ip' have "segments (spliceAxis sp ax) \<noteq> []" by (auto simp: idToPos_def)
    then have "wfSingle (spliceAxis sp ax)"
      unfolding sa using wf at True by (intro remove_keeps_single) auto
    from single_bijection[OF this] ip' show ?thesis by simp
  next
    case False
    show ?thesis
    proof (cases "ins sp > 0")
      case True
      then have sa: "spliceAxis sp ax = snd (insert_ax ax (atPos sp) (ins sp))"
        using False by (simp add: spliceAxis_def)
      show ?thesis
      proof (cases "atPos sp \<le> maxPos ax + 1")
        case T2: True
        have "wfSingle (spliceAxis sp ax)"
          unfolding sa using wf at T2 True by (intro insert_keeps_single(1)) auto
        from single_bijection[OF this] ip' show ?thesis by simp
      next
        case F2: False
        from wf obtain seg where seg: "segments ax = [seg]" "distinct (ids seg)"
          "\<forall>i\<in>set (ids seg). i < nextId ax" by (rule wfSingleE)
        from F2 seg have far: "startPos seg + int (length (ids seg)) < atPos sp"
          by (simp add: maxPos_def)
        then have segs: "segments (spliceAxis sp ax)
              = [seg, \<lparr>startPos = startPos seg + int (length (ids seg)),
                       ids = [nextId ax ..< nextId ax + nat (ins sp)]\<rparr>]"
          unfolding sa using seg by (simp add: insert_ax_def Let_def)
        from p seg have r: "startPos seg \<le> p" "p \<le> startPos seg + int (length (ids seg)) - 1"
          "i = ids seg ! nat (p - startPos seg)"
          by (auto simp: posToId_single split: if_splits)
        with far np True False have "p' = p" by (auto simp: applySpliceToPos_def)
        with r segs show ?thesis by (simp add: posToId_def Let_def)
      qed
    next
      case F3: False
      with False p np show ?thesis by (auto simp: spliceAxis_def applySpliceToPos_def)
    qed
  qed
qed

lemma rel_anchor_tracks:
  assumes wf: "wfSingle (axisOf (axis sp) R C)"
    and at: "firstPos (axisOf (axis sp) R C) \<le> atPos sp"
    and pub: "ins sp = 0 \<or> del sp = 0"
    and rel: "modeOf (axis sp) a = Rel"
    and tr: "transformAnchor a sp R C = Some a'"
    and t: "anchorTarget (axis sp) a (axisOf (axis sp) R C) = Some t"
    and tid: "posToId (axisOf (axis sp) R C) t = Some i"
  obtains t' where
    "anchorTarget (axis sp) a' (spliceAxis sp (axisOf (axis sp) R C)) = Some t'"
    "posToId (spliceAxis sp (axisOf (axis sp) R C)) t' = Some i"
    "applySpliceToPos sp t = Some t'"
proof -
  let ?k = "axis sp" and ?ax = "axisOf (axis sp) R C"
  from tr obtain b nb nt where
    b: "idToPos ?ax (baseId ?k a) = Some b" and nb: "applySpliceToPos sp b = Some nb"
    and nt: "(if modeOf ?k a = Rel then applySpliceToPos sp (b + offsetOf ?k a)
              else Some (b + offsetOf ?k a)) = Some nt"
    and a': "a' = (if ?k = Row then a\<lparr>dRow := nt - nb\<rparr> else a\<lparr>dCol := nt - nb\<rparr>)"
    by (rule transformAnchor_SomeD)
  from t b have tt: "t = b + offsetOf ?k a" by (simp add: anchorTarget_def)
  from nt rel tt have nt': "applySpliceToPos sp t = Some nt" by simp
  have nb': "idToPos (spliceAxis sp ?ax) (baseId ?k a) = Some nb"
    using wf at pub b nb by (rule splice_single_idToPos)
  have 1: "anchorTarget ?k a' (spliceAxis sp ?ax) = Some nt"
    using nb' transformed_parts[OF a'] by (simp add: anchorTarget_def)
  have 2: "posToId (spliceAxis sp ?ax) nt = Some i"
    using wf at pub tid nt' by (rule splice_single_posToId)
  from 1 2 nt' show thesis by (rule that)
qed

text \<open>
  X2 (the part of C1 that holds). On an index of one segment, for an insert or a delete at
  or after the first position, a relative anchor that the transformation keeps resolves
  after the splice to the position that holds the identifier it resolved to before: the
  image of the old position under the position map. The offset is computed once, from the
  positions before the splice. The witness is the sheet of six rows with \<^verbatim>\<open>=A1\<close> in
  row 5 and \<^verbatim>\<open>insertRows(3, 1)\<close>.
\<close>

theorem X2_rel_anchor_tracks_identifier:
  assumes "wfSingle (axisOf (axis sp) R C)"
    and "firstPos (axisOf (axis sp) R C) \<le> atPos sp"
    and "ins sp = 0 \<or> del sp = 0"
    and "modeOf (axis sp) a = Rel"
    and "transformAnchor a sp R C = Some a'"
    and "anchorTarget (axis sp) a (axisOf (axis sp) R C) = Some t"
    and "posToId (axisOf (axis sp) R C) t = Some i"
  shows "\<exists>t'. anchorTarget (axis sp) a' (spliceAxis sp (axisOf (axis sp) R C)) = Some t'
            \<and> posToId (spliceAxis sp (axisOf (axis sp) R C)) t' = Some i
            \<and> applySpliceToPos sp t = Some t'"
  using rel_anchor_tracks[OF assms] by metis

theorem X2_rel_anchor_tracks_identifier_witness:
  "wfSingle (axisOf Row (newAxisIndex 6) (newAxisIndex 1))
   \<and> firstPos (axisOf Row (newAxisIndex 6) (newAxisIndex 1)) \<le> 3
   \<and> modeOf Row \<lparr>base = (4, 0), rowMode = Rel, colMode = Rel, dRow = - 4, dCol = 0\<rparr> = Rel
   \<and> transformAnchor \<lparr>base = (4, 0), rowMode = Rel, colMode = Rel, dRow = - 4, dCol = 0\<rparr>
        \<lparr>axis = Row, atPos = 3, del = 0, ins = 1\<rparr> (newAxisIndex 6) (newAxisIndex 1)
      = Some \<lparr>base = (4, 0), rowMode = Rel, colMode = Rel, dRow = - 5, dCol = 0\<rparr>
   \<and> anchorTarget Row \<lparr>base = (4, 0), rowMode = Rel, colMode = Rel, dRow = - 4, dCol = 0\<rparr>
        (axisOf Row (newAxisIndex 6) (newAxisIndex 1)) = Some 1
   \<and> posToId (axisOf Row (newAxisIndex 6) (newAxisIndex 1)) 1 = Some 0
   \<and> (\<exists>t'. anchorTarget Row \<lparr>base = (4, 0), rowMode = Rel, colMode = Rel, dRow = - 5, dCol = 0\<rparr>
               (spliceAxis \<lparr>axis = Row, atPos = 3, del = 0, ins = 1\<rparr>
                  (axisOf Row (newAxisIndex 6) (newAxisIndex 1))) = Some t'
           \<and> posToId (spliceAxis \<lparr>axis = Row, atPos = 3, del = 0, ins = 1\<rparr>
                  (axisOf Row (newAxisIndex 6) (newAxisIndex 1))) t' = Some 0
           \<and> applySpliceToPos \<lparr>axis = Row, atPos = 3, del = 0, ins = 1\<rparr> 1 = Some t')"
proof -
  let ?sp = "\<lparr>axis = Row, atPos = 3, del = 0, ins = 1\<rparr>"
  let ?a = "\<lparr>base = (4, 0), rowMode = Rel, colMode = Rel, dRow = - 4, dCol = 0\<rparr>"
  let ?a' = "\<lparr>base = (4, 0), rowMode = Rel, colMode = Rel, dRow = - 5, dCol = 0\<rparr>"
  have h1: "wfSingle (axisOf (axis ?sp) (newAxisIndex 6) (newAxisIndex 1))" by code_simp
  have h2: "firstPos (axisOf (axis ?sp) (newAxisIndex 6) (newAxisIndex 1)) \<le> atPos ?sp"
    by code_simp
  have h3: "ins ?sp = 0 \<or> del ?sp = 0" by simp
  have h4: "modeOf (axis ?sp) ?a = Rel" by code_simp
  have h5: "transformAnchor ?a ?sp (newAxisIndex 6) (newAxisIndex 1) = Some ?a'" by code_simp
  have h6: "anchorTarget (axis ?sp) ?a (axisOf (axis ?sp) (newAxisIndex 6) (newAxisIndex 1)) = Some 1"
    by code_simp
  have h7: "posToId (axisOf (axis ?sp) (newAxisIndex 6) (newAxisIndex 1)) 1 = Some 0"
    by code_simp
  from X2_rel_anchor_tracks_identifier[OF h1 h2 h3 h4 h5 h6 h7] h1 h2 h4 h5 h6 h7
  show ?thesis by simp
qed

section \<open>What \<open>setFormula\<close> installs\<close>

lemma removeAllEdges_no_incoming: "map_of (incoming (removeAllEdges g k)) k = None"
  by (auto simp: removeAllEdges_def Let_def delete_conv split: option.splits)

lemma collectDependencies_cong:
  assumes "rows s = rows s'" "cols s = cols s'"
  shows "collectDependencies s f = collectDependencies s' f"
  using assms expandRange_cong[OF assms]
  by (cases f) (simp_all add: collectDependencies_def)

text \<open>
  X3 (the part of C4 that holds). When the test of \<^verbatim>\<open>setFormula\<close> finds a producer
  that closes a cycle in the graph it searches (the graph after \<^verbatim>\<open>removeAll\<close> on the
  cell), the formula is stored with its syntax tree and the cache \<^verbatim>\<open>#CYCLE!\<close>, and the
  cell has no inbound edge.
\<close>

theorem X3_detected_cycle_is_stored_without_edges:
  assumes "posToAddr sh pos = Some addr"
    and "parseFormula src pos (rows sh) (cols sh) = Some f"
    and "list_ex (\<lambda>dep. wouldCreateCycle (removeAllEdges (deps sh) addr) dep addr)
           (collectDependencies sh f)"
  shows "map_of (cells (setFormula sh pos src)) addr = Some (Formula f (Some CycleErr))
       \<and> getDependencies (deps (setFormula sh pos src)) addr = []
       \<and> deps (setFormula sh pos src) = removeAllEdges (deps sh) addr"
proof -
  let ?sh1 = "sh\<lparr>deps := removeAllEdges (deps sh) addr, ranges := removeWatches (ranges sh) addr\<rparr>"
  have cd: "collectDependencies ?sh1 f = collectDependencies sh f"
    by (rule collectDependencies_cong) simp_all
  have "setFormula sh pos src
        = ?sh1\<lparr>cells := AList.update addr (Formula f (Some CycleErr)) (cells ?sh1)\<rparr>"
    using assms by (simp add: setFormula_def Let_def cd)
  then show ?thesis
    by (simp add: update_conv' getDependencies_def getSet_def removeAllEdges_no_incoming)
qed

theorem X3_detected_cycle_is_stored_without_edges_witness:
  "posToAddr (newTable 2 1 :: int sheet) (1, 1) = Some (0, 0)
   \<and> parseFormula ''=A1'' (1, 1) (rows (newTable 2 1 :: int sheet)) (cols (newTable 2 1 :: int sheet))
       = Some (Ref \<lparr>base = (0, 0), rowMode = Rel, colMode = Rel, dRow = 0, dCol = 0\<rparr>)
   \<and> list_ex (\<lambda>dep. wouldCreateCycle (removeAllEdges (deps (newTable 2 1 :: int sheet)) (0, 0)) dep (0, 0))
        (collectDependencies (newTable 2 1 :: int sheet)
           (Ref \<lparr>base = (0, 0), rowMode = Rel, colMode = Rel, dRow = 0, dCol = 0\<rparr>))
   \<and> map_of (cells (setFormula (newTable 2 1 :: int sheet) (1, 1) ''=A1'')) (0, 0)
       = Some (Formula (Ref \<lparr>base = (0, 0), rowMode = Rel, colMode = Rel, dRow = 0, dCol = 0\<rparr>)
                 (Some CycleErr))
   \<and> getDependencies (deps (setFormula (newTable 2 1 :: int sheet) (1, 1) ''=A1'')) (0, 0) = []
   \<and> deps (setFormula (newTable 2 1 :: int sheet) (1, 1) ''=A1'') = removeAllEdges (deps (newTable 2 1 :: int sheet)) (0, 0)"
proof -
  let ?f = "Ref \<lparr>base = (0, 0), rowMode = Rel, colMode = Rel, dRow = 0, dCol = 0\<rparr>"
  have h1: "posToAddr (newTable 2 1 :: int sheet) (1, 1) = Some (0, 0)" by code_simp
  have h2: "parseFormula ''=A1'' (1, 1) (rows (newTable 2 1 :: int sheet)) (cols (newTable 2 1 :: int sheet)) = Some ?f"
    by code_simp
  have h3: "list_ex (\<lambda>dep. wouldCreateCycle (removeAllEdges (deps (newTable 2 1 :: int sheet)) (0, 0)) dep (0, 0))
        (collectDependencies (newTable 2 1 :: int sheet) ?f)" by code_simp
  from X3_detected_cycle_is_stored_without_edges[OF h1 h2 h3] h1 h2 h3
  show ?thesis by blast
qed

lemma getSet_update: "getSet (AList.update k v m) k' = (if k' = k then v else getSet m k')"
  by (simp add: getSet_def update_conv')

lemma getSet_delete: "getSet (AList.delete k m) k' = (if k' = k then [] else getSet m k')"
  by (simp add: getSet_def delete_conv)

lemma getSet_addToSet:
  "set (getSet (addToSet k v m) k') = (if k' = k then insert v (set (getSet m k)) else set (getSet m k'))"
  by (auto simp: addToSet_def getSet_update setAdd_def)

lemma getSet_dropFromSet:
  "set (getSet (dropFromSet k v m) k') = (if k' = k then set (getSet m k) - {v} else set (getSet m k'))"
proof (cases "map_of m k")
  case None
  then show ?thesis by (auto simp: dropFromSet_def getSet_def)
next
  case (Some s)
  then have g: "getSet m k = s" by (simp add: getSet_def)
  show ?thesis
  proof (cases "removeAll v s = []")
    case True
    then have "set s - {v} = {}" by (metis set_removeAll set_empty)
    with Some True g show ?thesis by (auto simp: dropFromSet_def getSet_delete)
  next
    case False
    with Some g show ?thesis by (auto simp: dropFromSet_def getSet_update)
  qed
qed

lemma fold_dropFromSet:
  "set (getSet (fold (\<lambda>fromKey out. dropFromSet fromKey key out) olds out) a)
   = (if a \<in> set olds then set (getSet out a) - {key} else set (getSet out a))"
  by (induction olds arbitrary: out) (auto simp: getSet_dropFromSet)

lemma addEdge_sets:
  "set (getDependents (addEdge g f t) a) = set (getDependents g a) \<union> (if a = f then {t} else {})"
  "set (getDependencies (addEdge g f t) b) = set (getDependencies g b) \<union> (if b = t then {f} else {})"
  by (auto simp: addEdge_def getDependents_def getDependencies_def getSet_addToSet)

lemma fold_addEdge_sets:
  "set (getDependents (fold (\<lambda>d gr. addEdge gr d key) ds g) a)
   = set (getDependents g a) \<union> (if a \<in> set ds then {key} else {})"
  "set (getDependencies (fold (\<lambda>d gr. addEdge gr d key) ds g) b)
   = set (getDependencies g b) \<union> (if b = key then set ds else {})"
  by (induction ds arbitrary: g) (auto simp: addEdge_sets)

lemma replaceAllInbound_sets:
  "set (getDependents (replaceAllInbound g key new) a)
   = (set (getDependents g a) - (if a \<in> set (getDependencies g key) then {key} else {}))
     \<union> (if a \<in> set new then {key} else {})"
  "set (getDependencies (replaceAllInbound g key new) b)
   = (if b = key then set new else set (getDependencies g b))"
proof -
  let ?out' = "case map_of (incoming g) key of
                 None \<Rightarrow> outgoing g
               | Some oldIncoming \<Rightarrow>
                   fold (\<lambda>fromKey out. dropFromSet fromKey key out) oldIncoming (outgoing g)"
  let ?g' = "\<lparr>outgoing = ?out', incoming = AList.update key [] (incoming g)\<rparr>"
  have r: "replaceAllInbound g key new = fold (\<lambda>fromA gr. addEdge gr fromA key) new ?g'"
    by (simp add: replaceAllInbound_def Let_def)
  have o: "set (getDependents ?g' a)
           = set (getDependents g a) - (if a \<in> set (getDependencies g key) then {key} else {})"
    by (cases "map_of (incoming g) key")
       (auto simp: getDependents_def getDependencies_def fold_dropFromSet getSet_def[of "incoming g"])
  have i: "set (getDependencies ?g' b) = (if b = key then {} else set (getDependencies g b))"
    by (simp add: getDependencies_def getSet_update)
  show "set (getDependents (replaceAllInbound g key new) a)
   = (set (getDependents g a) - (if a \<in> set (getDependencies g key) then {key} else {}))
     \<union> (if a \<in> set new then {key} else {})"
    unfolding r fold_addEdge_sets o ..
  show "set (getDependencies (replaceAllInbound g key new) b)
   = (if b = key then set new else set (getDependencies g b))"
    unfolding r fold_addEdge_sets i by auto
qed

lemma recalcStep_deps:
  "deps (recalcStep key s)
   = (case map_of (cells s) key of
        Some (Formula (Sum rng') c) \<Rightarrow> replaceAllInbound (deps s) key (expandRange s rng')
      | _ \<Rightarrow> deps s)"
  by (auto simp: recalcStep_def evalFormula_def Let_def split_beta
           split: option.splits cell.splits formula.splits)

lemma recalcStep_keeps_formula:
  assumes "map_of (cells s) addr = Some (Formula f c)"
  shows "\<exists>c'. map_of (cells (recalcStep key s)) addr = Some (Formula f c')"
proof (cases "key = addr")
  case True
  with recalcStep_formula[OF assms] show ?thesis by simp
next
  case False
  with assms recalcStep_other[of addr key s] show ?thesis by simp
qed

lemma recalcStep_edges:
  assumes cell: "map_of (cells s) addr = Some (Formula (Sum rng) c)"
    and E: "\<forall>a\<in>set (expandRange s rng). addr \<in> set (getDependents (deps s) a)
                                          \<and> a \<in> set (getDependencies (deps s) addr)"
  shows "\<forall>a\<in>set (expandRange (recalcStep key s) rng).
            addr \<in> set (getDependents (deps (recalcStep key s)) a)
            \<and> a \<in> set (getDependencies (deps (recalcStep key s)) addr)"
proof -
  have e: "expandRange (recalcStep key s) rng = expandRange s rng"
    by (rule expandRange_cong) simp_all
  show ?thesis
  proof (cases "key = addr")
    case True
    with cell have "deps (recalcStep key s) = replaceAllInbound (deps s) addr (expandRange s rng)"
      by (simp add: recalcStep_deps)
    then show ?thesis unfolding e by (simp add: replaceAllInbound_sets)
  next
    case False
    show ?thesis
    proof (cases "\<exists>rng' c'. map_of (cells s) key = Some (Formula (Sum rng') c')")
      case True
      then obtain rng' c' where "map_of (cells s) key = Some (Formula (Sum rng') c')" by blast
      then have "deps (recalcStep key s) = replaceAllInbound (deps s) key (expandRange s rng')"
        by (simp add: recalcStep_deps)
      with False E show ?thesis unfolding e by (auto simp: replaceAllInbound_sets)
    next
      case F: False
      then have "deps (recalcStep key s) = deps s"
        by (auto simp: recalcStep_deps split: option.splits cell.splits formula.splits)
      with E show ?thesis unfolding e by simp
    qed
  qed
qed

lemma fold_recalcStep_edges:
  assumes "map_of (cells s) addr = Some (Formula (Sum rng) c)"
    and "\<forall>a\<in>set (expandRange s rng). addr \<in> set (getDependents (deps s) a)
                                       \<and> a \<in> set (getDependencies (deps s) addr)"
  shows "\<forall>a\<in>set (expandRange s rng).
            addr \<in> set (getDependents (deps (fold recalcStep ks s)) a)
            \<and> a \<in> set (getDependencies (deps (fold recalcStep ks s)) addr)"
  using assms
proof (induction ks arbitrary: s c)
  case Nil
  then show ?case by simp
next
  case (Cons key ks)
  from recalcStep_keeps_formula[OF Cons.prems(1), of key] obtain c' where
    c': "map_of (cells (recalcStep key s)) addr = Some (Formula (Sum rng) c')" by blast
  have e: "expandRange (recalcStep key s) rng = expandRange s rng"
    by (rule expandRange_cong) simp_all
  from Cons.IH[OF c' recalcStep_edges[OF Cons.prems(1,2), of key]] show ?case
    unfolding e by simp
qed

text \<open>
  X4 (the part of C10 that holds). A \<open>Sum\<close> formula that \<^verbatim>\<open>setFormula\<close> stores
  without finding a cycle has, when the call returns, a numeric cache and an edge from
  every address of its rectangle, whether a cell is stored there or not.
\<close>

theorem X4_setFormula_installs_sum_edges:
  assumes "posToAddr sh pos = Some addr"
    and "parseFormula src pos (rows sh) (cols sh) = Some (Sum rng)"
    and "\<not> list_ex (\<lambda>dep. wouldCreateCycle (removeAllEdges (deps sh) addr) dep addr)
             (expandRange sh rng)"
  shows "(\<exists>m. map_of (cells (setFormula sh pos src)) addr = Some (Formula (Sum rng) (Some (Num m))))
       \<and> list_all (\<lambda>a. addr \<in> set (getDependents (deps (setFormula sh pos src)) a)
                       \<and> a \<in> set (getDependencies (deps (setFormula sh pos src)) addr))
            (expandRange sh rng)"
proof -
  let ?sh1 = "sh\<lparr>deps := removeAllEdges (deps sh) addr, ranges := removeWatches (ranges sh) addr\<rparr>"
  let ?ds = "expandRange sh rng"
  let ?sh2 = "?sh1\<lparr>deps := fold (\<lambda>dep g. addEdge g dep addr) ?ds (deps ?sh1)\<rparr>"
  let ?sh3 = "?sh2\<lparr>ranges := addWatch (ranges ?sh2) rng addr\<rparr>"
  let ?sh4 = "?sh3\<lparr>cells := AList.update addr (Formula (Sum rng) None) (cells ?sh3)\<rparr>"
  let ?ks = "topologicalSort (deps ?sh4) (affectedFrom (deps ?sh4) [addr])"
  have cd: "collectDependencies ?sh1 (Sum rng) = ?ds"
    using expandRange_cong[of ?sh1 sh rng] by (simp add: collectDependencies_def)
  have sf: "setFormula sh pos src = fold recalcStep ?ks ?sh4"
    using assms by (simp add: setFormula_def Let_def cd recalc_def)
  have e4: "expandRange ?sh4 rng = ?ds" by (rule expandRange_cong) simp_all
  have c4: "map_of (cells ?sh4) addr = Some (Formula (Sum rng) None)"
    by (simp add: update_conv')
  have E4: "\<forall>a\<in>set (expandRange ?sh4 rng). addr \<in> set (getDependents (deps ?sh4) a)
                                          \<and> a \<in> set (getDependencies (deps ?sh4) addr)"
    unfolding e4 by (simp add: fold_addEdge_sets)
  have ks: "addr \<in> set ?ks"
    using affectedLoop_covers[of "[]" "[addr]" "deps ?sh4"]
      topologicalSort_covers[of "affectedFrom (deps ?sh4) [addr]" "deps ?sh4"]
    by (auto simp: affectedFrom_def)
  have 1: "\<exists>m. map_of (cells (setFormula sh pos src)) addr = Some (Formula (Sum rng) (Some (Num m)))"
    unfolding sf by (rule fold_recalcStep_sum[OF c4 ks])
  have 2: "\<forall>a\<in>set ?ds. addr \<in> set (getDependents (deps (setFormula sh pos src)) a)
                       \<and> a \<in> set (getDependencies (deps (setFormula sh pos src)) addr)"
    using fold_recalcStep_edges[OF c4 E4, of ?ks] unfolding sf e4 .
  from 1 2 show ?thesis by (simp add: list_all_iff)
qed

theorem X4_setFormula_installs_sum_edges_witness:
  "(let sh = (newTable 5 1 :: int sheet);
        rng = \<lparr>rstart = \<lparr>base = (4, 0), rowMode = Rel, colMode = Rel, dRow = - 4, dCol = 0\<rparr>,
               rend = \<lparr>base = (4, 0), rowMode = Rel, colMode = Rel, dRow = - 1, dCol = 0\<rparr>\<rparr>
    in posToAddr sh (5, 1) = Some (4, 0)
       \<and> parseFormula ''=SUM(A1:A4)'' (5, 1) (rows sh) (cols sh) = Some (Sum rng)
       \<and> list_ex (\<lambda>dep. wouldCreateCycle (removeAllEdges (deps sh) (4, 0)) dep (4, 0))
            (expandRange sh rng) = False
       \<and> expandRange sh rng = [(0, 0), (1, 0), (2, 0), (3, 0)]
       \<and> (\<exists>m. map_of (cells (setFormula sh (5, 1) ''=SUM(A1:A4)'')) (4, 0)
                = Some (Formula (Sum rng) (Some (Num m))))
       \<and> list_all (\<lambda>a. (4, 0) \<in> set (getDependents (deps (setFormula sh (5, 1) ''=SUM(A1:A4)'')) a)
                       \<and> a \<in> set (getDependencies (deps (setFormula sh (5, 1) ''=SUM(A1:A4)'')) (4, 0)))
            (expandRange sh rng))"
proof -
  define sh where "sh = (newTable 5 1 :: int sheet)"
  define rng where "rng = \<lparr>rstart = \<lparr>base = (4, 0), rowMode = Rel, colMode = Rel, dRow = - 4, dCol = 0\<rparr>,
               rend = \<lparr>base = (4, 0), rowMode = Rel, colMode = Rel, dRow = - 1, dCol = 0\<rparr>\<rparr>"
  have h1: "posToAddr sh (5, 1) = Some (4, 0)" unfolding sh_def by code_simp
  have h2: "parseFormula ''=SUM(A1:A4)'' (5, 1) (rows sh) (cols sh) = Some (Sum rng)"
    unfolding sh_def rng_def by code_simp
  have h3: "\<not> list_ex (\<lambda>dep. wouldCreateCycle (removeAllEdges (deps sh) (4, 0)) dep (4, 0))
            (expandRange sh rng)" unfolding sh_def rng_def by code_simp
  have h4: "expandRange sh rng = [(0, 0), (1, 0), (2, 0), (3, 0)]"
    unfolding sh_def rng_def by code_simp
  from X4_setFormula_installs_sum_edges[OF h1 h2 h3] h1 h2 h3 h4
  show ?thesis unfolding sh_def[symmetric] rng_def[symmetric] Let_def by blast
qed


end
